theory Spec2Isabelle
  imports Main "HOL-Library.Char_ord" "HOL-Library.List_Lexorder" "HOL-Library.Multiset"
begin

section \<open>Python's regular expressions, as far as the inventory generator uses them\<close>

text \<open>
  The script \<^verbatim>\<open>scripts/generate-inventory.py\<close> extracts names with \<^verbatim>\<open>re.findall\<close> and
  \<^verbatim>\<open>re.search\<close>. Its patterns use literals, the classes \<^verbatim>\<open>\s\<close> and \<^verbatim>\<open>\w\<close>, bracket sets,
  greedy \<^verbatim>\<open>*\<close> and \<^verbatim>\<open>+\<close> on a class, a greedy optional group, alternation and one capture
  group. The matcher below is the backtracking matcher of Python for exactly these
  constructs: \<open>run r s c\<close> lists every way \<open>r\<close> matches a prefix of \<open>s\<close>, in the order in
  which Python tries them, as the rest of the input with the text of group 1.

  A Python \<^verbatim>\<open>str\<close> is a sequence of code points; \<open>string\<close> here is a sequence of the code
  points 0 to 255, and the classes \<^verbatim>\<open>\s\<close> and \<^verbatim>\<open>\w\<close> are Python's Unicode classes on that
  range.
\<close>

definition is_space :: "char \<Rightarrow> bool" where
  "is_space ch =
     (let n = (of_char ch :: nat)
      in (9 \<le> n \<and> n \<le> 13) \<or> (28 \<le> n \<and> n \<le> 32) \<or> n = 133 \<or> n = 160)"

definition is_word :: "char \<Rightarrow> bool" where
  "is_word ch =
     (let n = (of_char ch :: nat)
      in (48 \<le> n \<and> n \<le> 57) \<or> (65 \<le> n \<and> n \<le> 90) \<or> n = 95 \<or> (97 \<le> n \<and> n \<le> 122)
         \<or> n = 170 \<or> n = 178 \<or> n = 179 \<or> n = 181 \<or> n = 185 \<or> n = 186
         \<or> (188 \<le> n \<and> n \<le> 190) \<or> (192 \<le> n \<and> n \<le> 214) \<or> (216 \<le> n \<and> n \<le> 246)
         \<or> (248 \<le> n \<and> n \<le> 255))"

datatype cls = Space | Word | OneOf string | NoneOf string

fun in_cls :: "cls \<Rightarrow> char \<Rightarrow> bool" where
  "in_cls Space ch = is_space ch"
| "in_cls Word ch = is_word ch"
| "in_cls (OneOf cs) ch = (ch \<in> set cs)"
| "in_cls (NoneOf cs) ch = (ch \<notin> set cs)"

datatype rx =
    Lit string
  | Cls cls
  | Star cls
  | Plus cls
  | Opt rx
  | Alt rx rx
  | Seq rx rx
  | Grp rx

fun run :: "rx \<Rightarrow> string \<Rightarrow> string option \<Rightarrow> (string \<times> string option) list" where
  "run (Lit l) s c = (if take (length l) s = l then [(drop (length l) s, c)] else [])"
| "run (Cls k) s c = (case s of [] \<Rightarrow> [] | x # t \<Rightarrow> if in_cls k x then [(t, c)] else [])"
| "run (Star k) s c =
     map (\<lambda>n. (drop n s, c)) (rev [0 ..< Suc (length (takeWhile (in_cls k) s))])"
| "run (Plus k) s c =
     map (\<lambda>n. (drop n s, c)) (rev [1 ..< Suc (length (takeWhile (in_cls k) s))])"
| "run (Opt r) s c = run r s c @ [(s, c)]"
| "run (Alt a b) s c = run a s c @ run b s c"
| "run (Seq a b) s c = concat (map (\<lambda>p. run b (fst p) (snd p)) (run a s c))"
| "run (Grp r) s c =
     map (\<lambda>p. (fst p, Some (take (length s - length (fst p)) s))) (run r s c)"

fun seqs :: "rx list \<Rightarrow> rx" where
  "seqs [] = Lit []"
| "seqs [r] = r"
| "seqs (r # rs) = Seq r (seqs rs)"

text \<open>\<^verbatim>\<open>m.group(1)\<close>, which \<^verbatim>\<open>findall\<close> reports as the empty string when the group took no part.\<close>

fun group1 :: "string option \<Rightarrow> string" where
  "group1 None = []"
| "group1 (Some g) = g"

text \<open>
  \<^verbatim>\<open>re.finditer\<close>: the leftmost match, then the leftmost match after its end, and so on.
  A match is reported as its span (\<^verbatim>\<open>m.start()\<close>, \<^verbatim>\<open>m.end()\<close>) and group 1; \<open>i\<close> is the
  offset of \<open>s\<close> in the content. No pattern of the script matches the empty string;
  after an empty match the scan moves on by one character.
\<close>

function finditer :: "rx \<Rightarrow> nat \<Rightarrow> string \<Rightarrow> (nat \<times> nat \<times> string) list" where
  "finditer r i s =
     (case run r s None of
        [] \<Rightarrow> (case s of [] \<Rightarrow> [] | x # t \<Rightarrow> finditer r (Suc i) t)
      | p # ps \<Rightarrow>
          (i, i + (length s - length (fst p)), group1 (snd p)) #
          (if length (fst p) < length s
           then finditer r (i + (length s - length (fst p))) (fst p)
           else (case s of [] \<Rightarrow> [] | x # t \<Rightarrow> finditer r (Suc i) t)))"
  by pat_completeness auto
termination
  by (relation "measure (\<lambda>(r, i, s). length s)") auto

declare finditer.simps [simp del]

definition findall :: "rx \<Rightarrow> string \<Rightarrow> string list" where
  "findall r s = map (\<lambda>m. snd (snd m)) (finditer r 0 s)"

definition search :: "rx \<Rightarrow> string \<Rightarrow> bool" where
  "search r s = (\<exists>k \<in> set [0 ..< Suc (length s)]. run r (drop k s) None \<noteq> [])"

text \<open>
  What a match is, apart from the order in which the matcher finds it: \<open>matches r m c c'\<close>
  says that \<open>r\<close> matches exactly the text \<open>m\<close> and turns the text \<open>c\<close> of group 1
  into \<open>c'\<close>. It is the specification of \<open>run\<close> (lemma \<open>run_matches\<close>).
\<close>

fun matches :: "rx \<Rightarrow> string \<Rightarrow> string option \<Rightarrow> string option \<Rightarrow> bool" where
  "matches (Lit l) m c c' = (m = l \<and> c' = c)"
| "matches (Cls k) m c c' = (\<exists>x. m = [x] \<and> in_cls k x \<and> c' = c)"
| "matches (Star k) m c c' = (list_all (in_cls k) m \<and> c' = c)"
| "matches (Plus k) m c c' = (m \<noteq> [] \<and> list_all (in_cls k) m \<and> c' = c)"
| "matches (Opt r) m c c' = (matches r m c c' \<or> (m = [] \<and> c' = c))"
| "matches (Alt a b) m c c' = (matches a m c c' \<or> matches b m c c')"
| "matches (Seq a b) m c c' =
     (\<exists>m1 m2 c1. m = m1 @ m2 \<and> matches a m1 c c1 \<and> matches b m2 c1 c')"
| "matches (Grp r) m c c' = ((\<exists>c1. matches r m c c1) \<and> c' = Some m)"

section \<open>The extractors\<close>

record symbols =
  functions' :: "string list"
  classes :: "string list"
  interfaces :: "string list"
  types :: "string list"
  constants :: "string list"
  exports :: "string list"

definition func_pattern :: rx where
  "func_pattern =
     seqs [Opt (Seq (Lit ''export'') (Plus Space)), Opt (Seq (Lit ''async'') (Plus Space)),
           Lit ''function'', Plus Space, Grp (Plus Word), Star Space, Lit ''('']"

definition class_pattern :: rx where
  "class_pattern =
     seqs [Opt (Seq (Lit ''export'') (Plus Space)), Lit ''class'', Plus Space, Grp (Plus Word)]"

definition interface_pattern :: rx where
  "interface_pattern =
     seqs [Opt (Seq (Lit ''export'') (Plus Space)), Lit ''interface'', Plus Space,
           Grp (Plus Word)]"

definition type_pattern :: rx where
  "type_pattern =
     seqs [Opt (Seq (Lit ''export'') (Plus Space)), Lit ''type'', Plus Space, Grp (Plus Word),
           Star Space, Lit ''='']"

definition const_pattern :: rx where
  "const_pattern =
     seqs [Opt (Seq (Lit ''export'') (Plus Space)), Lit ''const'', Plus Space, Grp (Plus Word),
           Star Space, Cls (OneOf '':='')]"

text \<open>
  \<^verbatim>\<open>rf'const\s+{re.escape(match)}\s*=\s*\('\<close>: the escaped name matches itself, letter
  by letter.
\<close>

definition const_func_pattern :: "string \<Rightarrow> rx" where
  "const_func_pattern name =
     seqs [Lit ''const'', Plus Space, Lit name, Star Space, Lit ''='', Star Space, Lit ''('']"

definition export_pattern :: rx where
  "export_pattern =
     seqs [Lit ''export'', Plus Space,
           Alt (Lit ''const'') (Alt (Lit ''function'') (Alt (Lit ''class'')
             (Alt (Lit ''interface'') (Lit ''type'')))),
           Plus Space, Grp (Plus Word)]"

definition keywords_to_filter :: "string list" where
  "keywords_to_filter =
     [''if'', ''for'', ''while'', ''do'', ''switch'', ''case'', ''default'', ''try'', ''catch'',
      ''finally'', ''throw'', ''return'', ''break'', ''continue'', ''new'', ''this'', ''super'',
      ''extends'', ''implements'', ''import'', ''export'', ''from'', ''as'', ''typeof'',
      ''instanceof'', ''in'', ''of'', ''let'', ''var'', ''const'']"

text \<open>
  \<^verbatim>\<open>[s for s in set(xs) if s not in keywords_to_filter and len(s) > 1]\<close>. Python leaves the
  order in which a set is iterated open; \<open>remdups\<close> is one such order, and no statement
  below depends on which.
\<close>

definition dedup_filter :: "string list \<Rightarrow> string list" where
  "dedup_filter xs = filter (\<lambda>s. s \<notin> set keywords_to_filter \<and> length s > 1) (remdups xs)"

definition extract_typescript_symbols :: "string \<Rightarrow> symbols" where
  "extract_typescript_symbols content =
     (let const_matches = findall const_pattern content
      in \<lparr> functions' = dedup_filter (findall func_pattern content),
           classes = dedup_filter (findall class_pattern content),
           interfaces = dedup_filter (findall interface_pattern content),
           types = dedup_filter (findall type_pattern content),
           constants = dedup_filter
             (filter (\<lambda>m. \<not> search (const_func_pattern m) content) const_matches),
           exports = dedup_filter (findall export_pattern content) \<rparr>)"

definition quote :: cls where
  "quote = OneOf [CHR 0x27, CHR 0x22]"

definition not_quote :: cls where
  "not_quote = NoneOf [CHR 0x27, CHR 0x22]"

definition bench_pattern :: rx where
  "bench_pattern = seqs [Lit ''bench('', Star Space, Cls quote, Grp (Plus not_quote), Cls quote]"

definition describe_pattern :: rx where
  "describe_pattern =
     seqs [Lit ''describe('', Star Space, Cls quote, Grp (Plus not_quote), Cls quote]"

definition extract_benchmark_names :: "string \<Rightarrow> string list" where
  "extract_benchmark_names content =
     remdups (findall bench_pattern content @ findall describe_pattern content)"

definition test_pattern :: rx where
  "test_pattern =
     seqs [Alt (Lit ''it'') (Lit ''test''), Lit ''('', Star Space, Cls quote,
           Grp (Plus not_quote), Cls quote]"

definition extract_test_behaviors :: "string \<Rightarrow> string list" where
  "extract_test_behaviors content = findall test_pattern content"

text \<open>
  Two notions for stating what the test scan captures. \<open>test_call_at content j g\<close>: at
  offset \<open>j\<close> the content reads \<^verbatim>\<open>it(\<close> or \<^verbatim>\<open>test(\<close>, then whitespace, a quote character,
  the non-empty text \<open>g\<close> without quote characters, and a quote character.
  \<open>callee_before pre\<close> is the name that a text ends with: its longest suffix of word
  characters, which is the name of the function called when \<^verbatim>\<open>(\<close> follows the text.
\<close>

definition test_call_at :: "string \<Rightarrow> nat \<Rightarrow> string \<Rightarrow> bool" where
  "test_call_at content j g \<longleftrightarrow>
     (\<exists>name ws q1 q2 rest.
        j \<le> length content
        \<and> drop j content = name @ ''('' @ ws @ [q1] @ g @ [q2] @ rest
        \<and> (name = ''it'' \<or> name = ''test'')
        \<and> list_all is_space ws
        \<and> q1 \<in> {CHR 0x27, CHR 0x22} \<and> q2 \<in> {CHR 0x27, CHR 0x22}
        \<and> g \<noteq> [] \<and> list_all (\<lambda>x. x \<notin> {CHR 0x27, CHR 0x22}) g)"

definition callee_before :: "string \<Rightarrow> string" where
  "callee_before pre = rev (takeWhile is_word (rev pre))"

text \<open>
  \<open>call_span names content j e g\<close>: the text of the content from offset \<open>j\<close> up to
  offset \<open>e\<close> is one of the \<open>names\<close>, then \<^verbatim>\<open>(\<close>, whitespace, a quote character, the
  non-empty text \<open>g\<close> without quote characters, and a quote character.
\<close>

definition call_span :: "string list \<Rightarrow> string \<Rightarrow> nat \<Rightarrow> nat \<Rightarrow> string \<Rightarrow> bool" where
  "call_span names content j e g \<longleftrightarrow>
     (\<exists>name ws q1 q2.
        j \<le> e \<and> e \<le> length content
        \<and> take (e - j) (drop j content) = name @ ''('' @ ws @ [q1] @ g @ [q2]
        \<and> name \<in> set names
        \<and> list_all is_space ws
        \<and> q1 \<in> {CHR 0x27, CHR 0x22} \<and> q2 \<in> {CHR 0x27, CHR 0x22}
        \<and> g \<noteq> [] \<and> list_all (\<lambda>x. x \<notin> {CHR 0x27, CHR 0x22}) g)"

text \<open>
  The three call scans share their tail, \<^verbatim>\<open>\s*['"]([^'"]+)['"]\<close>. \<open>call_scan names r\<close>
  says that \<open>r\<close> matches one of the \<open>names\<close>, then \<^verbatim>\<open>(\<close>, then this tail, and that the
  name of a call is determined by the text.
\<close>

definition call_tail :: rx where
  "call_tail = Seq (Star Space) (Seq (Cls quote) (Seq (Grp (Plus not_quote)) (Cls quote)))"

definition call_scan :: "string list \<Rightarrow> rx \<Rightarrow> bool" where
  "call_scan names r \<longleftrightarrow>
     (\<forall>m c'. matches r m None c' \<longleftrightarrow>
        (\<exists>name t. name \<in> set names \<and> m = name @ ''('' @ t \<and> matches call_tail t None c'))
     \<and> (\<forall>n \<in> set names. \<forall>n' \<in> set names. \<forall>x y. n @ ''('' @ x = n' @ ''('' @ y \<longrightarrow> n = n')"

section \<open>The report\<close>

text \<open>
  An inventory is a Python dictionary from the path of a file to its record. It is an
  association list in insertion order, with pairwise different keys. The three kinds of
  record share \<^verbatim>\<open>line_count\<close> and \<^verbatim>\<open>size\<close>.
\<close>

record file_info =
  line_count :: nat
  size' :: nat

record src_file = file_info +
  symbols :: symbols

record bench_file = file_info +
  benchmarks :: "string list"

record test_file = file_info +
  behaviors :: "string list"

type_synonym 'a inventory = "(string \<times> 'a) list"

definition keys :: "'a inventory \<Rightarrow> string list" where
  "keys inventory = map fst inventory"

definition values_of :: "'a inventory \<Rightarrow> 'a list" where
  "values_of inventory = map snd inventory"

text \<open>The decimal numeral that an f-string prints for \<^verbatim>\<open>len(...)\<close>.\<close>

function str_nat :: "nat \<Rightarrow> string" where
  "str_nat n =
     (if n < 10 then [char_of (48 + n)] else str_nat (n div 10) @ [char_of (48 + n mod 10)])"
  by pat_completeness auto
termination
  by (relation "measure (\<lambda>n. n)") auto

declare str_nat.simps [simp del]

fun join :: "string \<Rightarrow> string list \<Rightarrow> string" where
  "join sep [] = []"
| "join sep [x] = x"
| "join sep (x # xs) = x @ sep @ join sep xs"

definition total_src_symbols :: "src_file inventory \<Rightarrow> nat" where
  "total_src_symbols src_inventory =
     sum_list (map (\<lambda>file_data. length (functions' (symbols file_data))
                               + length (classes (symbols file_data))
                               + length (interfaces (symbols file_data)))
                   (values_of src_inventory))"

definition total_benchmarks :: "bench_file inventory \<Rightarrow> nat" where
  "total_benchmarks benches_inventory =
     sum_list (map (\<lambda>file_data. length (benchmarks file_data)) (values_of benches_inventory))"

definition total_behaviors :: "test_file inventory \<Rightarrow> nat" where
  "total_behaviors tests_inventory =
     sum_list (map (\<lambda>file_data. length (behaviors file_data)) (values_of tests_inventory))"

definition symbol_counts :: "symbols \<Rightarrow> string list" where
  "symbol_counts sy =
     (if classes sy \<noteq> [] then [str_nat (length (classes sy)) @ '' classes''] else [])
   @ (if interfaces sy \<noteq> [] then [str_nat (length (interfaces sy)) @ '' interfaces''] else [])
   @ (if functions' sy \<noteq> [] then [str_nat (length (functions' sy)) @ '' functions''] else [])
   @ (if types sy \<noteq> [] then [str_nat (length (types sy)) @ '' types''] else [])
   @ (if constants sy \<noteq> [] then [str_nat (length (constants sy)) @ '' constants''] else [])"

definition symbol_summary :: "symbols \<Rightarrow> string" where
  "symbol_summary sy =
     (if symbol_counts sy \<noteq> [] then join '', '' (symbol_counts sy) else ''No symbols'')"

definition src_line :: "string \<Rightarrow> src_file \<Rightarrow> string" where
  "src_line file_path data = ''- `'' @ file_path @ ''` - '' @ symbol_summary (symbols data)"

definition bench_lines :: "string \<Rightarrow> bench_file \<Rightarrow> string list" where
  "bench_lines file_path data =
     [''- `'' @ file_path @ ''` - '' @ str_nat (length (benchmarks data)) @ '' benchmarks'']
   @ (if benchmarks data \<noteq> []
      then map (\<lambda>benchmark. ''  - '' @ benchmark) (sort (benchmarks data)) else [])
   @ [[]]"

definition test_lines :: "string \<Rightarrow> test_file \<Rightarrow> string list" where
  "test_lines file_path data =
     [''- `'' @ file_path @ ''` - '' @ str_nat (length (behaviors data)) @ '' test behaviors'']
   @ (if behaviors data \<noteq> []
      then map (\<lambda>behavior. ''  - '' @ behavior) (sort (behaviors data)) else [])
   @ [[]]"

text \<open>
  \<^verbatim>\<open>for file_path in sorted(inv.keys()): data = inv[file_path]; ...\<close>, where \<open>body\<close> gives the
  lines appended for one file. Every key that the loop looks up is a key of the
  dictionary, so that the lookup never fails.
\<close>

definition for_sorted :: "'a inventory \<Rightarrow> (string \<Rightarrow> 'a \<Rightarrow> string list) \<Rightarrow> string list" where
  "for_sorted inventory body =
     concat (map (\<lambda>file_path. case map_of inventory file_path of
                                 None \<Rightarrow> []
                               | Some data \<Rightarrow> body file_path data)
                 (sort (keys inventory)))"

definition report_lines ::
  "src_file inventory \<Rightarrow> bench_file inventory \<Rightarrow> test_file inventory \<Rightarrow> string list" where
  "report_lines src_inventory benches_inventory tests_inventory =
     [''# Askr Framework Inventory'',
      [],
      ''Generated on: 2025-12-17'',
      [],
      ''## Summary'',
      [],
      ''- **Source files**: '' @ str_nat (length src_inventory),
      ''- **Benchmark files**: '' @ str_nat (length benches_inventory),
      ''- **Test files**: '' @ str_nat (length tests_inventory),
      ''- **Total symbols in src/**: '' @ str_nat (total_src_symbols src_inventory),
      ''- **Total benchmarks**: '' @ str_nat (total_benchmarks benches_inventory),
      ''- **Total test behaviors**: '' @ str_nat (total_behaviors tests_inventory),
      [],
      ''## Source Files (`src/`)'',
      []]
   @ for_sorted src_inventory (\<lambda>file_path data. [src_line file_path data])
   @ [[],
      ''## Benchmark Files (`benches/`)'',
      []]
   @ for_sorted benches_inventory bench_lines
   @ [''## Test Files (`tests/`)'',
      []]
   @ for_sorted tests_inventory test_lines"

definition generate_markdown_inventory ::
  "src_file inventory \<Rightarrow> bench_file inventory \<Rightarrow> test_file inventory \<Rightarrow> string" where
  "generate_markdown_inventory src_inventory benches_inventory tests_inventory =
     join [CHR 0x0A] (report_lines src_inventory benches_inventory tests_inventory)"

section \<open>Properties of the symbol classifier\<close>

lemma distinct_dedup_filter: "distinct (dedup_filter xs)"
  by (simp add: dedup_filter_def)

lemma set_dedup_filter:
  "set (dedup_filter xs) = {s \<in> set xs. s \<notin> set keywords_to_filter \<and> 1 < length s}"
  by (auto simp: dedup_filter_def)

lemma extract_fields:
  "functions' (extract_typescript_symbols C) = dedup_filter (findall func_pattern C)"
  "classes (extract_typescript_symbols C) = dedup_filter (findall class_pattern C)"
  "interfaces (extract_typescript_symbols C) = dedup_filter (findall interface_pattern C)"
  "types (extract_typescript_symbols C) = dedup_filter (findall type_pattern C)"
  "constants (extract_typescript_symbols C)
   = dedup_filter (filter (\<lambda>m. \<not> search (const_func_pattern m) C) (findall const_pattern C))"
  "exports (extract_typescript_symbols C) = dedup_filter (findall export_pattern C)"
  by (simp_all add: extract_typescript_symbols_def Let_def)

text \<open>
  C1. For every content, each of the six categories that \<open>extract_typescript_symbols\<close>
  returns has no duplicates, holds no name of the reserved-keyword set and holds no name
  of length 0 or 1.
\<close>

theorem classify_categories_clean:
  "\<forall>cat \<in> {functions', classes, interfaces, types, constants, exports}.
     distinct (cat (extract_typescript_symbols C)) \<and>
     (\<forall>name \<in> set (cat (extract_typescript_symbols C)).
        name \<notin> set keywords_to_filter \<and> 1 < length name)"
  by (simp add: extract_typescript_symbols_def Let_def distinct_dedup_filter set_dedup_filter)

theorem classify_categories_clean_witness:
  "''Foo'' \<in> set (classes (extract_typescript_symbols
                             ''export class Foo {} class if {} class Foo {}''))
   \<and> ''Foo'' \<notin> set keywords_to_filter \<and> 1 < length ''Foo''
   \<and> distinct (classes (extract_typescript_symbols
                           ''export class Foo {} class if {} class Foo {}''))"
proof -
  have m: "''Foo'' \<in> set (classes (extract_typescript_symbols
                                     ''export class Foo {} class if {} class Foo {}''))"
    unfolding extract_fields by code_simp
  from classify_categories_clean [of "''export class Foo {} class if {} class Foo {}''"] m
  show ?thesis by blast
qed

section \<open>Properties of the report\<close>

lemma str_nat_nonempty: "str_nat n \<noteq> []"
  by (subst str_nat.simps) simp

lemma join_nonempty: "xs \<noteq> [] \<Longrightarrow> hd xs \<noteq> [] \<Longrightarrow> join sep xs \<noteq> []"
  by (induction sep xs rule: join.induct) auto

lemma symbol_counts_hd: "symbol_counts sy \<noteq> [] \<Longrightarrow> hd (symbol_counts sy) \<noteq> []"
  by (auto simp: symbol_counts_def)

lemma symbol_summary_nonempty: "symbol_summary sy \<noteq> []"
  by (simp add: symbol_summary_def join_nonempty symbol_counts_hd)

lemma symbol_counts_filter:
  "symbol_counts sy =
     map (\<lambda>(xs, label). str_nat (length xs) @ '' '' @ label)
       (filter (\<lambda>(xs, label). xs \<noteq> [])
          [(classes sy, ''classes''), (interfaces sy, ''interfaces''),
           (functions' sy, ''functions''), (types sy, ''types''),
           (constants sy, ''constants'')])"
  by (simp add: symbol_counts_def)

lemma for_sorted_mem:
  assumes "distinct (keys inventory)" "(p, d) \<in> set inventory"
  shows "set (body p d) \<subseteq> set (for_sorted inventory body)"
proof -
  have "map_of inventory p = Some d"
    using assms by (simp add: keys_def)
  moreover have "p \<in> set (sort (keys inventory))"
    using assms(2) by (force simp: keys_def)
  ultimately show ?thesis
    by (force simp: for_sorted_def)
qed

text \<open>
  C9. The summary of a file in the source listing consists of the counts of its non-empty
  categories, in the order classes, interfaces, functions, types, constants, joined by
  a comma and a space; when these five categories are all empty it is the phrase
  \<^verbatim>\<open>No symbols\<close>. It is never the empty string, and the line of a file of the
  inventory is a line of the report.
\<close>

theorem source_listing_line:
  "symbol_summary sy =
     (let counts = map (\<lambda>(xs, label). str_nat (length xs) @ '' '' @ label)
                     (filter (\<lambda>(xs, label). xs \<noteq> [])
                        [(classes sy, ''classes''), (interfaces sy, ''interfaces''),
                         (functions' sy, ''functions''), (types sy, ''types''),
                         (constants sy, ''constants'')])
      in if counts = [] then ''No symbols'' else join '', '' counts)
   \<and> (classes sy = [] \<and> interfaces sy = [] \<and> functions' sy = [] \<and> types sy = []
        \<and> constants sy = [] \<longrightarrow> symbol_summary sy = ''No symbols'')
   \<and> symbol_summary sy \<noteq> []
   \<and> (distinct (keys src) \<and> (p, d) \<in> set src \<and> symbols d = sy \<longrightarrow>
        ''- `'' @ p @ ''` - '' @ symbol_summary sy \<in> set (report_lines src b t))"
proof -
  have 1: "symbol_summary sy =
     (let counts = map (\<lambda>(xs, label). str_nat (length xs) @ '' '' @ label)
                     (filter (\<lambda>(xs, label). xs \<noteq> [])
                        [(classes sy, ''classes''), (interfaces sy, ''interfaces''),
                         (functions' sy, ''functions''), (types sy, ''types''),
                         (constants sy, ''constants'')])
      in if counts = [] then ''No symbols'' else join '', '' counts)"
    unfolding symbol_summary_def symbol_counts_filter Let_def by simp
  have 2: "classes sy = [] \<and> interfaces sy = [] \<and> functions' sy = [] \<and> types sy = []
        \<and> constants sy = [] \<longrightarrow> symbol_summary sy = ''No symbols''"
    by (simp add: symbol_summary_def symbol_counts_def)
  have 3: "distinct (keys src) \<and> (p, d) \<in> set src \<and> symbols d = sy \<longrightarrow>
        ''- `'' @ p @ ''` - '' @ symbol_summary sy \<in> set (report_lines src b t)"
  proof (intro impI, elim conjE)
    assume a: "distinct (keys src)" "(p, d) \<in> set src" "symbols d = sy"
    from for_sorted_mem [OF a(1) a(2), of "\<lambda>file_path data. [src_line file_path data]"]
    have "src_line p d \<in> set (for_sorted src (\<lambda>file_path data. [src_line file_path data]))"
      by simp
    then show "''- `'' @ p @ ''` - '' @ symbol_summary sy \<in> set (report_lines src b t)"
      using a(3) by (simp add: report_lines_def src_line_def)
  qed
  from 1 2 3 symbol_summary_nonempty show ?thesis by blast
qed

theorem source_listing_line_witness:
  "symbol_summary \<lparr>functions' = [''ff'', ''gg''], classes = [''Foo''], interfaces = [], types = [],
                    constants = [''kk''], exports = [''Foo'']\<rparr> = ''1 classes, 2 functions, 1 constants''
   \<and> symbol_summary \<lparr>functions' = [], classes = [], interfaces = [], types = [],
                    constants = [], exports = [''gg'']\<rparr> = ''No symbols''
   \<and> ''- `src/a.ts` - No symbols''
       \<in> set (report_lines [(''src/a.ts'', \<lparr>line_count = 1, size' = 9, symbols = \<lparr>functions' = [], classes = [], interfaces = [], types = [],
                    constants = [], exports = [''gg'']\<rparr>\<rparr>)] [] [])"
proof -
  let ?sy = "\<lparr>functions' = [], classes = [], interfaces = [], types = [],
                    constants = [], exports = [''gg'']\<rparr>"
  let ?d = "\<lparr>line_count = 1, size' = 9, symbols = ?sy\<rparr>"
  have a: "symbol_summary \<lparr>functions' = [''ff'', ''gg''], classes = [''Foo''], interfaces = [], types = [],
                    constants = [''kk''], exports = [''Foo'']\<rparr> = ''1 classes, 2 functions, 1 constants''"
    by code_simp
  have h: "distinct (keys [(''src/a.ts'', ?d)]) \<and> (''src/a.ts'', ?d) \<in> set [(''src/a.ts'', ?d)] \<and> symbols ?d = ?sy"
    by (simp add: keys_def)
  have e: "classes ?sy = [] \<and> interfaces ?sy = [] \<and> functions' ?sy = [] \<and> types ?sy = []
        \<and> constants ?sy = []" by simp
  from source_listing_line [of ?sy "[(''src/a.ts'', ?d)]" "''src/a.ts''" ?d "[]" "[]"] h e a
  show ?thesis by auto
qed

lemma scenario_symbols:
  "extract_typescript_symbols (''export class Foo {}'' @ [CHR 0x0A] @ ''interface Bar {}'')
   = \<lparr>functions' = [], classes = [''Foo''], interfaces = [''Bar''], types = [],
       constants = [], exports = [''Foo'']\<rparr>"
  by code_simp

lemma str_nat_small: "str_nat (Suc 0) = ''1''" "str_nat (Suc (Suc 0)) = ''2''"
  by code_simp+

lemma total_src_symbols_ignores:
  "total_src_symbols
     (map (\<lambda>(p, d). (p, d\<lparr>symbols := (symbols d)\<lparr>types := ty p, constants := co p,
                                                   exports := ex p\<rparr>\<rparr>)) src)
   = total_src_symbols src"
  by (simp add: total_src_symbols_def values_of_def comp_def case_prod_beta)

text \<open>
  C2. The total that the summary of the report prints is the sum, over the records of
  the source inventory, of the numbers of functions, classes and interfaces; the types,
  constants and exports of a file do not change it. For the one file
  \<^verbatim>\<open>export class Foo {}\<close>, \<^verbatim>\<open>interface Bar {}\<close> the total is 2 and the listing line reads
  \<^verbatim>\<open>1 classes, 1 interfaces\<close>.
\<close>

theorem report_total_symbols:
  "report_lines src b t ! 9
     = ''- **Total symbols in src/**: ''
       @ str_nat (\<Sum>d\<leftarrow>map snd src. length (functions' (symbols d))
                                  + length (classes (symbols d))
                                  + length (interfaces (symbols d)))
   \<and> total_src_symbols
        (map (\<lambda>(p, d). (p, d\<lparr>symbols := (symbols d)\<lparr>types := ty p, constants := co p,
                                                      exports := ex p\<rparr>\<rparr>)) src)
       = total_src_symbols src
   \<and> report_lines
        [(path, \<lparr>line_count = lc, size' = sz,
                 symbols = extract_typescript_symbols
                   (''export class Foo {}'' @ [CHR 0x0A] @ ''interface Bar {}'')\<rparr>)] b t ! 9
       = ''- **Total symbols in src/**: 2''
   \<and> report_lines
        [(path, \<lparr>line_count = lc, size' = sz,
                 symbols = extract_typescript_symbols
                   (''export class Foo {}'' @ [CHR 0x0A] @ ''interface Bar {}'')\<rparr>)] b t ! 15
       = ''- `'' @ path @ ''` - 1 classes, 1 interfaces''"
proof -
  have 1: "report_lines src b t ! 9
     = ''- **Total symbols in src/**: ''
       @ str_nat (\<Sum>d\<leftarrow>map snd src. length (functions' (symbols d))
                                  + length (classes (symbols d))
                                  + length (interfaces (symbols d)))"
    by (simp add: report_lines_def total_src_symbols_def values_of_def)
  have 3: "report_lines
        [(path, \<lparr>line_count = lc, size' = sz,
                 symbols = extract_typescript_symbols
                   (''export class Foo {}'' @ [CHR 0x0A] @ ''interface Bar {}'')\<rparr>)] b t ! 9
       = ''- **Total symbols in src/**: 2''"
    unfolding scenario_symbols
    by (simp add: report_lines_def total_src_symbols_def values_of_def str_nat_small)
  have 4: "report_lines
        [(path, \<lparr>line_count = lc, size' = sz,
                 symbols = extract_typescript_symbols
                   (''export class Foo {}'' @ [CHR 0x0A] @ ''interface Bar {}'')\<rparr>)] b t ! 15
       = ''- `'' @ path @ ''` - 1 classes, 1 interfaces''"
    unfolding scenario_symbols
    by (simp add: report_lines_def for_sorted_def keys_def src_line_def symbol_summary_def
        symbol_counts_def str_nat_small)
  from 1 total_src_symbols_ignores 3 4 show ?thesis by blast
qed

lemma sort_cong_mset: "mset xs = mset ys \<Longrightarrow> sort xs = sort ys"
  using properties_for_sort [of "sort ys" xs] by simp

lemma keys_of_abs: "map fst (map (\<lambda>(p, d). (p, f d)) a) = keys a"
  by (simp add: keys_def comp_def case_prod_beta)

lemma for_sorted_abs:
  assumes db: "distinct (keys b)"
    and m: "mset (map (\<lambda>(p, d). (p, f d)) a) = mset (map (\<lambda>(p, d). (p, g d)) b)"
    and bd: "\<And>p d e. f d = g e \<Longrightarrow> body p d = body' p e"
  shows "for_sorted a body = for_sorted b body'"
proof -
  have "image_mset fst (mset (map (\<lambda>(p, d). (p, f d)) a))
        = image_mset fst (mset (map (\<lambda>(p, d). (p, g d)) b))"
    using m by (rule arg_cong)
  then have "mset (map fst (map (\<lambda>(p, d). (p, f d)) a))
        = mset (map fst (map (\<lambda>(p, d). (p, g d)) b))"
    by (simp only: mset_map)
  then have mk: "mset (keys a) = mset (keys b)"
    by (simp only: keys_of_abs)
  then have da: "distinct (keys a)"
    using db mset_eq_imp_distinct_iff by blast
  have sk: "sort (keys a) = sort (keys b)"
    using mk by (rule sort_cong_mset)
  have st: "set (map (\<lambda>(p, d). (p, f d)) a) = set (map (\<lambda>(p, d). (p, g d)) b)"
    using m by (rule mset_eq_setD)
  have pt: "(case map_of a p of None \<Rightarrow> [] | Some data \<Rightarrow> body p data)
          = (case map_of b p of None \<Rightarrow> [] | Some data \<Rightarrow> body' p data)"
    if "p \<in> set (keys a)" for p
  proof -
    from that obtain d where d: "(p, d) \<in> set a" by (auto simp: keys_def)
    then have "(p, f d) \<in> set (map (\<lambda>(p, d). (p, f d)) a)" by force
    with st have "(p, f d) \<in> set (map (\<lambda>(p, d). (p, g d)) b)" by simp
    then obtain e where e: "(p, e) \<in> set b" "f d = g e" by auto
    have "map_of a p = Some d" using da d by (simp add: keys_def)
    moreover have "map_of b p = Some e" using db e(1) by (simp add: keys_def)
    ultimately show ?thesis using bd [OF e(2)] by simp
  qed
  show ?thesis
    unfolding for_sorted_def sk [symmetric]
    by (rule arg_cong [where f = concat], rule map_cong) (simp_all add: pt)
qed

lemma length_abs:
  "mset (map (\<lambda>(p, d). (p, f d)) a) = mset (map (\<lambda>(p, d). (p, g d)) b) \<Longrightarrow> length a = length b"
  using mset_eq_length [of "map (\<lambda>(p, d). (p, f d)) a" "map (\<lambda>(p, d). (p, g d)) b"] by simp

lemma sum_list_image_mset: "sum_list (map k xs) = sum_mset (image_mset k (mset xs))"
  by (simp only: sum_mset_sum_list [symmetric] mset_map)

lemma sum_list_abs:
  assumes m: "mset (map (\<lambda>(p, d). (p, f d)) a) = mset (map (\<lambda>(p, d). (p, g d)) b)"
    and h: "\<And>d. h d = k (f d)" and h': "\<And>e. h' e = k (g e)"
  shows "sum_list (map h (values_of a)) = (sum_list (map h' (values_of b)) :: nat)"
proof -
  have "sum_list (map h (values_of a)) = sum_list (map (k \<circ> snd) (map (\<lambda>(p, d). (p, f d)) a))"
    by (simp add: values_of_def comp_def case_prod_beta h)
  also have "\<dots> = sum_mset (image_mset (k \<circ> snd) (mset (map (\<lambda>(p, d). (p, f d)) a)))"
    by (rule sum_list_image_mset)
  also have "\<dots> = sum_mset (image_mset (k \<circ> snd) (mset (map (\<lambda>(p, d). (p, g d)) b)))"
    by (simp only: m)
  also have "\<dots> = sum_list (map (k \<circ> snd) (map (\<lambda>(p, d). (p, g d)) b))"
    by (rule sum_list_image_mset [symmetric])
  also have "\<dots> = sum_list (map h' (values_of b))"
    by (simp add: values_of_def comp_def case_prod_beta h')
  finally show ?thesis .
qed

lemma bench_lines_abs:
  assumes "mset (benchmarks d) = mset (benchmarks e)"
  shows "bench_lines p d = bench_lines p e"
proof -
  have "length (benchmarks d) = length (benchmarks e)"
    using assms by (rule mset_eq_length)
  moreover have "sort (benchmarks d) = sort (benchmarks e)"
    using assms by (rule sort_cong_mset)
  moreover have "benchmarks d = [] \<longleftrightarrow> benchmarks e = []"
    using assms by (cases "benchmarks d"; cases "benchmarks e") auto
  ultimately show ?thesis by (simp add: bench_lines_def)
qed

lemma test_lines_abs:
  assumes "mset (behaviors d) = mset (behaviors e)"
  shows "test_lines p d = test_lines p e"
proof -
  have "length (behaviors d) = length (behaviors e)"
    using assms by (rule mset_eq_length)
  moreover have "sort (behaviors d) = sort (behaviors e)"
    using assms by (rule sort_cong_mset)
  moreover have "behaviors d = [] \<longleftrightarrow> behaviors e = []"
    using assms by (cases "behaviors d"; cases "behaviors e") auto
  ultimately show ?thesis by (simp add: test_lines_def)
qed

lemma map_fst_sort_key: "map fst (sort_key fst xs) = sort (map fst xs)"
proof -
  have "mset (map fst (sort_key fst xs)) = mset (map fst xs)" by simp
  moreover have "sorted (map fst (sort_key fst xs))" by (rule sorted_sort_key)
  ultimately show ?thesis by (rule properties_for_sort [symmetric])
qed

lemma for_sorted_sort_key:
  assumes d: "distinct (keys a)"
  shows "for_sorted a body = concat (map (\<lambda>(p, d). body p d) (sort_key fst a))"
proof -
  have "map (\<lambda>p. case map_of a p of None \<Rightarrow> [] | Some data \<Rightarrow> body p data)
          (map fst (sort_key fst a))
        = map (\<lambda>(p, d). body p d) (sort_key fst a)"
    unfolding map_map
  proof (rule map_cong [OF refl])
    fix x assume "x \<in> set (sort_key fst a)"
    then have "(fst x, snd x) \<in> set a" by simp
    then have "map_of a (fst x) = Some (snd x)"
      using d by (simp add: keys_def)
    then show "((\<lambda>p. case map_of a p of None \<Rightarrow> [] | Some data \<Rightarrow> body p data) \<circ> fst) x
               = (case x of (p, d) \<Rightarrow> body p d)"
      by (simp add: case_prod_beta)
  qed
  then show ?thesis
    by (simp add: for_sorted_def keys_def map_fst_sort_key)
qed


lemma bench_lines_sorted:
  "bench_lines p d
   = (''- `'' @ p @ ''` - '' @ str_nat (length (benchmarks d)) @ '' benchmarks'')
     # map (\<lambda>benchmark. ''  - '' @ benchmark) (sort (benchmarks d)) @ [[]]"
  by (simp add: bench_lines_def)

lemma test_lines_sorted:
  "test_lines p d
   = (''- `'' @ p @ ''` - '' @ str_nat (length (behaviors d)) @ '' test behaviors'')
     # map (\<lambda>behavior. ''  - '' @ behavior) (sort (behaviors d)) @ [[]]"
  by (simp add: test_lines_def)

lemma report_listing:
  assumes "distinct (keys src)" "distinct (keys b)" "distinct (keys t)"
  shows "drop 15 (report_lines src b t)
     = map (\<lambda>(p, d). src_line p d) (sort_key fst src)
       @ [[], ''## Benchmark Files (`benches/`)'', []]
       @ concat (map (\<lambda>(p, d). bench_lines p d) (sort_key fst b))
       @ [''## Test Files (`tests/`)'', []]
       @ concat (map (\<lambda>(p, d). test_lines p d) (sort_key fst t))"
proof -
  have "concat (map (\<lambda>(p, d). [src_line p d]) (sort_key fst src))
        = map (\<lambda>(p, d). src_line p d) (sort_key fst src)"
    by (induction "sort_key fst src") (auto simp: case_prod_beta)
  then show ?thesis
    using assms by (simp add: report_lines_def for_sorted_sort_key)
qed

lemma report_lines_abs:
  assumes d: "distinct (keys src)" "distinct (keys b)" "distinct (keys t)"
    and ms: "mset src' = mset src"
    and mb: "mset (map (\<lambda>(p, d). (p, mset (benchmarks d))) b')
             = mset (map (\<lambda>(p, d). (p, mset (benchmarks d))) b)"
    and mt: "mset (map (\<lambda>(p, d). (p, mset (behaviors d))) t')
             = mset (map (\<lambda>(p, d). (p, mset (behaviors d))) t)"
  shows "report_lines src' b' t' = report_lines src b t"
proof -
  have ms': "mset (map (\<lambda>(p, d). (p, d)) src') = mset (map (\<lambda>(p, d). (p, d)) src)"
    using ms by simp
  have l1: "length src' = length src" using ms by (rule mset_eq_length)
  have l2: "length b' = length b" using mb by (rule length_abs)
  have l3: "length t' = length t" using mt by (rule length_abs)
  have t1: "total_src_symbols src' = total_src_symbols src"
    unfolding total_src_symbols_def
    by (rule sum_list_abs [OF ms', where k = "\<lambda>d. length (functions' (symbols d))
          + length (classes (symbols d)) + length (interfaces (symbols d))"]) simp_all
  have t2: "total_benchmarks b' = total_benchmarks b"
    unfolding total_benchmarks_def
    by (rule sum_list_abs [OF mb, where k = size]) simp_all
  have t3: "total_behaviors t' = total_behaviors t"
    unfolding total_behaviors_def
    by (rule sum_list_abs [OF mt, where k = size]) simp_all
  have f1: "for_sorted src' (\<lambda>file_path data. [src_line file_path data])
            = for_sorted src (\<lambda>file_path data. [src_line file_path data])"
    by (rule for_sorted_abs [OF d(1) ms']) simp
  have f2: "for_sorted b' bench_lines = for_sorted b bench_lines"
    by (rule for_sorted_abs [OF d(2) mb]) (rule bench_lines_abs)
  have f3: "for_sorted t' test_lines = for_sorted t test_lines"
    by (rule for_sorted_abs [OF d(3) mt]) (rule test_lines_abs)
  show ?thesis
    unfolding report_lines_def l1 l2 l3 t1 t2 t3 f1 f2 f3 ..
qed

text \<open>
  C3. The report is a function of the three inventories as dictionaries: it does not
  depend on the order in which the files were inserted, nor on the order of the
  benchmark labels and behaviours of a file. The listings run through the files in
  ascending order of their paths, and the labels and behaviours of a file are printed
  in ascending order.
\<close>

theorem render_deterministic:
  assumes "distinct (keys src)" "distinct (keys b)" "distinct (keys t)"
    and "mset src' = mset src"
    and "mset (map (\<lambda>(p, d). (p, mset (benchmarks d))) b')
         = mset (map (\<lambda>(p, d). (p, mset (benchmarks d))) b)"
    and "mset (map (\<lambda>(p, d). (p, mset (behaviors d))) t')
         = mset (map (\<lambda>(p, d). (p, mset (behaviors d))) t)"
  shows "generate_markdown_inventory src' b' t' = generate_markdown_inventory src b t
     \<and> drop 15 (report_lines src b t)
       = map (\<lambda>(p, d). src_line p d) (sort_key fst src)
         @ [[], ''## Benchmark Files (`benches/`)'', []]
         @ concat (map (\<lambda>(p, d). bench_lines p d) (sort_key fst b))
         @ [''## Test Files (`tests/`)'', []]
         @ concat (map (\<lambda>(p, d). test_lines p d) (sort_key fst t))
     \<and> sorted (map fst (sort_key fst src)) \<and> sorted (map fst (sort_key fst b))
     \<and> sorted (map fst (sort_key fst t))
     \<and> bench_lines p d
       = (''- `'' @ p @ ''` - '' @ str_nat (length (benchmarks d)) @ '' benchmarks'')
         # map (\<lambda>benchmark. ''  - '' @ benchmark) (sort (benchmarks d)) @ [[]]
     \<and> test_lines p e
       = (''- `'' @ p @ ''` - '' @ str_nat (length (behaviors e)) @ '' test behaviors'')
         # map (\<lambda>behavior. ''  - '' @ behavior) (sort (behaviors e)) @ [[]]"
proof -
  have g: "generate_markdown_inventory src' b' t' = generate_markdown_inventory src b t"
    unfolding generate_markdown_inventory_def
    by (rule arg_cong [OF report_lines_abs [OF assms]])
  show ?thesis
    by (intro conjI, rule g, rule report_listing [OF assms(1-3)], (rule sorted_sort_key)+,
        rule bench_lines_sorted, rule test_lines_sorted)
qed

theorem render_deterministic_witness:
  "generate_markdown_inventory
     [(''src/b.ts'', \<lparr>line_count = 1, size' = 9, symbols = extract_typescript_symbols ''class Foo {}''\<rparr>),
      (''src/a.ts'', \<lparr>line_count = 2, size' = 5, symbols = extract_typescript_symbols ''x''\<rparr>)]
     [(''benches/z.ts'', \<lparr>line_count = 3, size' = 7, benchmarks = [''run'', ''add'']\<rparr>)]
     [(''tests/t.ts'', \<lparr>line_count = 3, size' = 7, behaviors = [''works'', ''fails'', ''works'']\<rparr>)]
   = generate_markdown_inventory
     [(''src/a.ts'', \<lparr>line_count = 2, size' = 5, symbols = extract_typescript_symbols ''x''\<rparr>),
      (''src/b.ts'', \<lparr>line_count = 1, size' = 9, symbols = extract_typescript_symbols ''class Foo {}''\<rparr>)]
     [(''benches/z.ts'', \<lparr>line_count = 3, size' = 7, benchmarks = [''add'', ''run'']\<rparr>)]
     [(''tests/t.ts'', \<lparr>line_count = 3, size' = 7, behaviors = [''works'', ''works'', ''fails'']\<rparr>)]"
proof -
  let ?s1 = "(''src/b.ts'', \<lparr>line_count = 1, size' = 9, symbols = extract_typescript_symbols ''class Foo {}''\<rparr>)"
  let ?s2 = "(''src/a.ts'', \<lparr>line_count = 2, size' = 5, symbols = extract_typescript_symbols ''x''\<rparr>)"
  let ?b' = "[(''benches/z.ts'', \<lparr>line_count = 3, size' = 7, benchmarks = [''run'', ''add'']\<rparr>)]"
  let ?b = "[(''benches/z.ts'', \<lparr>line_count = 3, size' = 7, benchmarks = [''add'', ''run'']\<rparr>)]"
  let ?t' = "[(''tests/t.ts'', \<lparr>line_count = 3, size' = 7, behaviors = [''works'', ''fails'', ''works'']\<rparr>)]"
  let ?t = "[(''tests/t.ts'', \<lparr>line_count = 3, size' = 7, behaviors = [''works'', ''works'', ''fails'']\<rparr>)]"
  have h1: "distinct (keys [?s2, ?s1])" by (simp add: keys_def)
  have h2: "distinct (keys ?b)" by (simp add: keys_def)
  have h3: "distinct (keys ?t)" by (simp add: keys_def)
  have h4: "mset [?s1, ?s2] = mset [?s2, ?s1]" by simp
  have h5: "mset (map (\<lambda>(p, d). (p, mset (benchmarks d))) ?b')
         = mset (map (\<lambda>(p, d). (p, mset (benchmarks d))) ?b)" by simp
  have h6: "mset (map (\<lambda>(p, d). (p, mset (behaviors d))) ?t')
         = mset (map (\<lambda>(p, d). (p, mset (behaviors d))) ?t)" by simp
  show ?thesis
    by (rule render_deterministic [OF h1 h2 h3 h4 h5 h6, THEN conjunct1])
qed

section \<open>The matcher meets its specification\<close>

lemma takeWhile_all_prefix:
  "list_all P m \<Longrightarrow> length m \<le> length (takeWhile P (m @ s))"
  by (induction m) auto

lemma take_takeWhile_all:
  "n \<le> length (takeWhile P s) \<Longrightarrow> list_all P (take n s)"
proof (induction s arbitrary: n)
  case Nil
  then show ?case by simp
next
  case (Cons x s)
  then show ?case by (cases n) (auto split: if_splits)
qed

lemma run_Star_iff:
  "(s', c') \<in> set (run (Star k) s c) \<longleftrightarrow> (\<exists>m. s = m @ s' \<and> list_all (in_cls k) m \<and> c' = c)"
proof
  assume "(s', c') \<in> set (run (Star k) s c)"
  then obtain n where n: "n \<le> length (takeWhile (in_cls k) s)" "s' = drop n s" "c' = c"
    by (auto simp del: upt_Suc simp: less_Suc_eq_le)
  then have "s = take n s @ s'" "list_all (in_cls k) (take n s)"
    by (simp_all add: take_takeWhile_all)
  with n(3) show "\<exists>m. s = m @ s' \<and> list_all (in_cls k) m \<and> c' = c" by blast
next
  assume "\<exists>m. s = m @ s' \<and> list_all (in_cls k) m \<and> c' = c"
  then obtain m where m: "s = m @ s'" "list_all (in_cls k) m" "c' = c" by blast
  then have "length m \<le> length (takeWhile (in_cls k) s)"
    by (simp add: takeWhile_all_prefix)
  moreover have "s' = drop (length m) s" using m(1) by simp
  ultimately show "(s', c') \<in> set (run (Star k) s c)"
    using m(3) by (auto simp del: upt_Suc simp: image_iff less_Suc_eq_le)
qed

lemma run_Plus_iff:
  "(s', c') \<in> set (run (Plus k) s c)
   \<longleftrightarrow> (\<exists>m. s = m @ s' \<and> m \<noteq> [] \<and> list_all (in_cls k) m \<and> c' = c)"
proof
  assume "(s', c') \<in> set (run (Plus k) s c)"
  then obtain n where n: "1 \<le> n" "n \<le> length (takeWhile (in_cls k) s)" "s' = drop n s" "c' = c"
    by (auto simp del: upt_Suc simp: less_Suc_eq_le)
  then have "n \<le> length s"
    using length_takeWhile_le [of "in_cls k" s] by linarith
  with n have "s = take n s @ s'" "list_all (in_cls k) (take n s)" "take n s \<noteq> []"
    by (auto simp: take_takeWhile_all)
  with n(4) show "\<exists>m. s = m @ s' \<and> m \<noteq> [] \<and> list_all (in_cls k) m \<and> c' = c" by blast
next
  assume "\<exists>m. s = m @ s' \<and> m \<noteq> [] \<and> list_all (in_cls k) m \<and> c' = c"
  then obtain m where m: "s = m @ s'" "m \<noteq> []" "list_all (in_cls k) m" "c' = c" by blast
  then have "length m \<le> length (takeWhile (in_cls k) s)"
    by (simp add: takeWhile_all_prefix)
  moreover have "s' = drop (length m) s" using m(1) by simp
  moreover have "1 \<le> length m" using m(2) by (cases m) auto
  ultimately show "(s', c') \<in> set (run (Plus k) s c)"
    using m(4) by (auto simp del: upt_Suc simp: image_iff less_Suc_eq_le)
qed

lemma run_Lit_iff:
  "(s', c') \<in> set (run (Lit l) s c) \<longleftrightarrow> (s = l @ s' \<and> c' = c)"
proof -
  have "take (length l) s = l \<longleftrightarrow> s = l @ drop (length l) s"
    by (metis append_eq_conv_conj append_take_drop_id)
  then show ?thesis by auto
qed

lemma run_Cls_iff:
  "(s', c') \<in> set (run (Cls k) s c) \<longleftrightarrow> (\<exists>x. s = x # s' \<and> in_cls k x \<and> c' = c)"
  by (cases s) auto

lemma run_matches:
  "(s', c') \<in> set (run r s c) \<longleftrightarrow> (\<exists>m. s = m @ s' \<and> matches r m c c')"
proof (induction r arbitrary: s c s' c')
  case (Lit l)
  show ?case unfolding run_Lit_iff by auto
next
  case (Cls k)
  show ?case unfolding run_Cls_iff by auto
next
  case (Star k)
  show ?case unfolding run_Star_iff by auto
next
  case (Plus k)
  show ?case unfolding run_Plus_iff by auto
next
  case (Opt r)
  then show ?case by auto
next
  case (Alt a b)
  then show ?case by auto
next
  case (Seq a b)
  show ?case
  proof
    assume "(s', c') \<in> set (run (Seq a b) s c)"
    then obtain s1 c1 where 1: "(s1, c1) \<in> set (run a s c)" "(s', c') \<in> set (run b s1 c1)"
      by auto
    from 1(1) Seq.IH(1) obtain m1 where m1: "s = m1 @ s1" "matches a m1 c c1" by blast
    from 1(2) Seq.IH(2) obtain m2 where m2: "s1 = m2 @ s'" "matches b m2 c1 c'" by blast
    from m1 m2 have "s = (m1 @ m2) @ s' \<and> matches (Seq a b) (m1 @ m2) c c'"
      by auto
    then show "\<exists>m. s = m @ s' \<and> matches (Seq a b) m c c'" by blast
  next
    assume "\<exists>m. s = m @ s' \<and> matches (Seq a b) m c c'"
    then obtain m1 m2 c1 where m: "s = (m1 @ m2) @ s'" "matches a m1 c c1" "matches b m2 c1 c'"
      by auto
    from m(1,2) Seq.IH(1) [of "m2 @ s'" c1 s c] have "(m2 @ s', c1) \<in> set (run a s c)"
      by auto
    moreover from m(3) Seq.IH(2) [of s' c' "m2 @ s'" c1] have "(s', c') \<in> set (run b (m2 @ s') c1)"
      by auto
    ultimately show "(s', c') \<in> set (run (Seq a b) s c)"
      by force
  qed
next
  case (Grp r)
  show ?case
  proof
    assume "(s', c') \<in> set (run (Grp r) s c)"
    then obtain c1 where 1: "(s', c1) \<in> set (run r s c)" "c' = Some (take (length s - length s') s)"
      by auto
    from 1(1) Grp.IH obtain m where m: "s = m @ s'" "matches r m c c1" by blast
    then have "c' = Some m" using 1(2) by simp
    with m show "\<exists>m. s = m @ s' \<and> matches (Grp r) m c c'" by auto
  next
    assume "\<exists>m. s = m @ s' \<and> matches (Grp r) m c c'"
    then obtain m c1 where m: "s = m @ s'" "matches r m c c1" "c' = Some m" by auto
    with Grp.IH [of s' c1 s c] have "(s', c1) \<in> set (run r s c)" by auto
    then show "(s', c') \<in> set (run (Grp r) s c)"
      using m(1,3) by (force simp: image_iff)
  qed
qed
lemma matches_SeqI:
  "matches a m1 c c1 \<Longrightarrow> matches b m2 c1 c' \<Longrightarrow> matches (Seq a b) (m1 @ m2) c c'"
  by auto

lemma matches_SeqE:
  assumes "matches (Seq a b) m c c'"
  obtains m1 m2 c1 where "m = m1 @ m2" "matches a m1 c c1" "matches b m2 c1 c'"
  using assms by auto

section \<open>Properties of the scan\<close>

lemma run_hd_matches:
  assumes "run r s None = p # ps"
  shows "\<exists>m. s = m @ fst p \<and> matches r m None (snd p)"
proof -
  have "(fst p, snd p) \<in> set (run r s None)" using assms by simp
  then show ?thesis by (simp only: run_matches)
qed

lemma drop_Cons_diff: "Suc i \<le> j \<Longrightarrow> drop (j - i) (x # t) = drop (j - Suc i) t"
  by (simp add: drop_Cons' Suc_diff_le)

lemma finditer_sound:
  "(j, e, g) \<in> set (finditer r i s) \<Longrightarrow>
   i \<le> j \<and> j \<le> e \<and> e \<le> i + length s
   \<and> (\<exists>c'. matches r (take (e - j) (drop (j - i) s)) None c' \<and> g = group1 c')"
proof (induction r i s rule: finditer.induct)
  case (1 r i s)
  note unf = finditer.simps [of r i s]
  show ?case
  proof (cases "run r s None")
    case Nil
    with "1.prems" unf obtain x t where s: "s = x # t"
      and mem: "(j, e, g) \<in> set (finditer r (Suc i) t)"
      by (cases s) auto
    from "1.IH"(1) [OF Nil s mem] s show ?thesis
      by (auto simp: drop_Cons_diff)
  next
    case (Cons p ps)
    from run_hd_matches [OF Cons] obtain m where m: "s = m @ fst p" "matches r m None (snd p)"
      by blast
    have first: ?thesis if "(j, e, g) = (i, i + (length s - length (fst p)), group1 (snd p))"
      using that m by auto
    show ?thesis
    proof (cases "length (fst p) < length s")
      case True
      with "1.prems" unf Cons
      consider "(j, e, g) = (i, i + (length s - length (fst p)), group1 (snd p))"
        | "(j, e, g) \<in> set (finditer r (i + (length s - length (fst p))) (fst p))"
        by auto
      then show ?thesis
      proof cases
        case 1
        then show ?thesis by (rule first)
      next
        case 2
        from "1.IH"(2) [OF Cons True 2]
        have ih: "i + length m \<le> j" "j \<le> e" "e \<le> i + length m + length (fst p)"
          "\<exists>c'. matches r (take (e - j) (drop (j - (i + length m)) (fst p))) None c' \<and> g = group1 c'"
          using m(1) by auto
        have "drop (j - i) s = drop (j - (i + length m)) (fst p)"
          using ih(1) m(1) by (simp add: drop_append) 
        with ih m(1) show ?thesis by auto
      qed
    next
      case False
      with "1.prems" unf Cons
      consider "(j, e, g) = (i, i + (length s - length (fst p)), group1 (snd p))"
        | x t where "s = x # t" "(j, e, g) \<in> set (finditer r (Suc i) t)"
        by (cases s) auto
      then show ?thesis
      proof cases
        case 1
        then show ?thesis by (rule first)
      next
        case 2
        from "1.IH"(3) [OF Cons False 2(1) 2(2)] 2(1) show ?thesis
          by (auto simp: drop_Cons_diff)
      qed
    qed
  qed
qed

lemma finditer_starts_increase:
  "sorted_wrt (\<lambda>a b. fst a < fst b) (finditer r i s)"
proof (induction r i s rule: finditer.induct)
  case (1 r i s)
  note unf = finditer.simps [of r i s]
  show ?case
  proof (cases "run r s None")
    case Nil
    with "1.IH"(1) show ?thesis
      unfolding unf by (cases s) auto
  next
    case (Cons p ps)
    show ?thesis
    proof (cases "length (fst p) < length s")
      case True
      have "i < fst b" if "b \<in> set (finditer r (i + (length s - length (fst p))) (fst p))" for b
      proof -
        have "i + (length s - length (fst p)) \<le> fst b"
          using finditer_sound [of "fst b" "fst (snd b)" "snd (snd b)" r
              "i + (length s - length (fst p))" "fst p"] that
          by simp
        then show ?thesis using True by linarith
      qed
      with "1.IH"(2) [OF Cons True] Cons True show ?thesis
        unfolding unf by simp
    next
      case False
      show ?thesis
      proof (cases s)
        case Nil
        with Cons False show ?thesis unfolding unf by simp
      next
        case (Cons x t)
        have "i < fst b" if "b \<in> set (finditer r (Suc i) t)" for b
          using finditer_sound [of "fst b" "fst (snd b)" "snd (snd b)" r "Suc i" t] that
          by simp
        with "1.IH"(3) [OF \<open>run r s None = p # ps\<close> False Cons] \<open>run r s None = p # ps\<close> False Cons
        show ?thesis unfolding unf by simp
      qed
    qed
  qed
qed


section \<open>Properties of the test extractor\<close>

lemma matches_test_pattern:
  assumes "matches test_pattern m None c'"
  shows "\<exists>name ws q1 q2 g.
           m = name @ ''('' @ ws @ [q1] @ g @ [q2]
           \<and> (name = ''it'' \<or> name = ''test'')
           \<and> list_all is_space ws
           \<and> q1 \<in> {CHR 0x27, CHR 0x22} \<and> q2 \<in> {CHR 0x27, CHR 0x22}
           \<and> g \<noteq> [] \<and> list_all (\<lambda>x. x \<notin> {CHR 0x27, CHR 0x22}) g
           \<and> c' = Some g"
proof -
  from assms have "\<exists>ws q1 g q2.
      (m = ''it'' @ ''('' @ ws @ [q1] @ g @ [q2] \<or> m = ''test'' @ ''('' @ ws @ [q1] @ g @ [q2])
      \<and> list_all (in_cls Space) ws \<and> in_cls quote q1 \<and> in_cls quote q2
      \<and> g \<noteq> [] \<and> list_all (in_cls not_quote) g \<and> c' = Some g"
    unfolding test_pattern_def by auto
  then obtain ws q1 g q2 where
    d: "m = ''it'' @ ''('' @ ws @ [q1] @ g @ [q2] \<or> m = ''test'' @ ''('' @ ws @ [q1] @ g @ [q2]"
    and r: "list_all (in_cls Space) ws" "in_cls quote q1" "in_cls quote q2"
      "g \<noteq> []" "list_all (in_cls not_quote) g" "c' = Some g"
    by blast
  from r have r': "list_all is_space ws" "q1 \<in> {CHR 0x27, CHR 0x22}" "q2 \<in> {CHR 0x27, CHR 0x22}"
    "list_all (\<lambda>x. x \<notin> {CHR 0x27, CHR 0x22}) g"
    by (auto simp: quote_def not_quote_def list_all_iff)
  from d show ?thesis
  proof
    assume "m = ''it'' @ ''('' @ ws @ [q1] @ g @ [q2]"
    with r' r(4,6) show ?thesis by blast
  next
    assume "m = ''test'' @ ''('' @ ws @ [q1] @ g @ [q2]"
    with r' r(4,6) show ?thesis by blast
  qed
qed

lemma finditer_test_call_at:
  assumes "(j, e, g) \<in> set (finditer test_pattern 0 C)"
  shows "test_call_at C j g"
proof -
  from finditer_sound [OF assms] obtain c' where
    b: "j \<le> e" "e \<le> length C" and m: "matches test_pattern (take (e - j) (drop j C)) None c'"
    and g: "g = group1 c'"
    by auto
  from matches_test_pattern [OF m] obtain name ws q1 q2 g' where
    s: "take (e - j) (drop j C) = name @ ''('' @ ws @ [q1] @ g' @ [q2]"
    and r: "name = ''it'' \<or> name = ''test''" "list_all is_space ws"
      "q1 \<in> {CHR 0x27, CHR 0x22}" "q2 \<in> {CHR 0x27, CHR 0x22}"
      "g' \<noteq> []" "list_all (\<lambda>x. x \<notin> {CHR 0x27, CHR 0x22}) g'" "c' = Some g'"
    by blast
  have "drop j C = take (e - j) (drop j C) @ drop (e - j) (drop j C)"
    by (simp only: append_take_drop_id)
  then have "drop j C = (name @ ''('' @ ws @ [q1] @ g' @ [q2]) @ drop (e - j) (drop j C)"
    by (simp only: s)
  then have "drop j C = name @ ''('' @ ws @ [q1] @ g' @ [q2] @ drop (e - j) (drop j C)"
    by (simp only: append_assoc)
  moreover have "j \<le> length C" using b by simp
  moreover have "g = g'" using g r(7) by simp
  ultimately show ?thesis
    unfolding test_call_at_def using r(1-6) by blast
qed


text \<open>
  C6, as the code has it. Every element that \<open>extract_test_behaviors\<close> returns is a
  non-empty text without quote characters that stands in the content between two quote
  characters, after the letters \<^verbatim>\<open>it(\<close> or \<^verbatim>\<open>test(\<close> and optional whitespace. The
  letters need not be a whole function name, and the two quote characters need not be
  the same.
\<close>

theorem test_behaviors_are_call_texts:
  "\<forall>g \<in> set (extract_test_behaviors C). \<exists>j. test_call_at C j g"
proof
  fix g assume "g \<in> set (extract_test_behaviors C)"
  then obtain j e where "(j, e, g) \<in> set (finditer test_pattern 0 C)"
    by (force simp: extract_test_behaviors_def findall_def)
  then have "test_call_at C j g" by (rule finditer_test_call_at)
  then show "\<exists>j. test_call_at C j g" ..
qed

theorem test_behaviors_are_call_texts_witness:
  "''x'' \<in> set (extract_test_behaviors ''emit('x')'') \<and> (\<exists>j. test_call_at ''emit('x')'' j ''x'')"
proof -
  have m: "''x'' \<in> set (extract_test_behaviors ''emit('x')'')" by code_simp
  with test_behaviors_are_call_texts [of "''emit('x')''"] show ?thesis by blast
qed

text \<open>
  C6, as stated, fails: the scan has no word boundary before \<^verbatim>\<open>it\<close> and \<^verbatim>\<open>test\<close>. In
  \<^verbatim>\<open>submit("form")\<close> the match starts at offset 4, inside the name \<^verbatim>\<open>submit\<close> of the
  function that is called, and its argument is captured.
\<close>

theorem test_behaviors_other_callee_counterexample:
  "finditer test_pattern 0 ''submit(\"form\")'' = [(4, 13, ''form'')]
   \<and> extract_test_behaviors ''submit(\"form\")'' = [''form'']
   \<and> callee_before (take 6 ''submit(\"form\")'') = ''submit''"
  by code_simp

section \<open>Constants that are bound to a function expression\<close>

lemma matches_Seq_LitI:
  "matches b m2 c c' \<Longrightarrow> matches (Seq (Lit l) b) (l @ m2) c c'"
  by auto

lemma matches_Seq_StarI:
  "list_all (in_cls k) m1 \<Longrightarrow> matches b m2 c c' \<Longrightarrow> matches (Seq (Star k) b) (m1 @ m2) c c'"
  by auto

lemma matches_Seq_PlusI:
  "m1 \<noteq> [] \<Longrightarrow> list_all (in_cls k) m1 \<Longrightarrow> matches b m2 c c'
   \<Longrightarrow> matches (Seq (Plus k) b) (m1 @ m2) c c'"
  by auto

lemma is_space_blank: "is_space CHR '' ''"
  by (simp add: is_space_def)

lemma search_intro:
  assumes "matches r m None c'"
  shows "search r (pre @ m @ post)"
proof -
  have "(post, c') \<in> set (run r (m @ post) None)"
    using assms by (auto simp: run_matches)
  then have "run r (drop (length pre) (pre @ m @ post)) None \<noteq> []"
    by auto
  moreover have "length pre \<in> set [0 ..< Suc (length (pre @ m @ post))]"
    by simp
  ultimately show ?thesis
    unfolding search_def by blast
qed

lemma const_func_matches:
  assumes "ws1 \<noteq> []" "list_all is_space ws1" "list_all is_space ws2" "list_all is_space ws3"
  shows "matches (const_func_pattern name)
           (''const'' @ ws1 @ name @ ws2 @ ''='' @ ws3 @ ''('') None None"
  unfolding const_func_pattern_def seqs.simps
  using assms
  by (intro matches_Seq_LitI matches_Seq_StarI matches_Seq_PlusI) (simp_all add: list_all_iff)

lemma constants_search:
  assumes "search (const_func_pattern name) C"
  shows "name \<notin> set (constants (extract_typescript_symbols C))"
  using assms by (simp add: extract_typescript_symbols_def Let_def set_dedup_filter)

text \<open>
  C4. When the content contains \<^verbatim>\<open>const foo = (\<close>, the name \<^verbatim>\<open>foo\<close> is not in the constants
  of \<open>extract_typescript_symbols\<close>, wherever in the content this text stands and
  whatever else the content declares under that name. The same holds with any
  whitespace in the place of the three blanks (none at all is needed around \<^verbatim>\<open>=\<close>).
\<close>

theorem const_function_binding_excluded:
  "name \<notin> set (constants (extract_typescript_symbols (pre @ ''const '' @ name @ '' = ('' @ post)))
   \<and> (ws1 \<noteq> [] \<and> list_all is_space ws1 \<and> list_all is_space ws2 \<and> list_all is_space ws3 \<longrightarrow>
        name \<notin> set (constants (extract_typescript_symbols
                  (pre @ ''const'' @ ws1 @ name @ ws2 @ ''='' @ ws3 @ ''('' @ post))))"
proof (intro conjI impI)
  have "matches (const_func_pattern name)
          (''const'' @ '' '' @ name @ '' '' @ ''='' @ '' '' @ ''('') None None"
    by (rule const_func_matches) (simp_all add: is_space_blank)
  then have "search (const_func_pattern name)
          (pre @ (''const'' @ '' '' @ name @ '' '' @ ''='' @ '' '' @ ''('') @ post)"
    by (rule search_intro)
  then have "search (const_func_pattern name) (pre @ ''const '' @ name @ '' = ('' @ post)"
    by simp
  then show "name \<notin> set (constants (extract_typescript_symbols
                (pre @ ''const '' @ name @ '' = ('' @ post)))"
    by (rule constants_search)
next
  assume a: "ws1 \<noteq> [] \<and> list_all is_space ws1 \<and> list_all is_space ws2 \<and> list_all is_space ws3"
  then have "matches (const_func_pattern name)
          (''const'' @ ws1 @ name @ ws2 @ ''='' @ ws3 @ ''('') None None"
    by (intro const_func_matches) simp_all
  then have "search (const_func_pattern name)
          (pre @ (''const'' @ ws1 @ name @ ws2 @ ''='' @ ws3 @ ''('') @ post)"
    by (rule search_intro)
  then have "search (const_func_pattern name)
          (pre @ ''const'' @ ws1 @ name @ ws2 @ ''='' @ ws3 @ ''('' @ post)"
    by simp
  then show "name \<notin> set (constants (extract_typescript_symbols
                (pre @ ''const'' @ ws1 @ name @ ws2 @ ''='' @ ws3 @ ''('' @ post)))"
    by (rule constants_search)
qed

theorem const_function_binding_excluded_witness:
  "''foo'' \<in> set (findall const_pattern (''export '' @ ''const '' @ ''foo'' @ '' = ('' @ ''a) => a; const kk = 1''))
   \<and> ''foo'' \<notin> set (constants (extract_typescript_symbols
        (''export '' @ ''const '' @ ''foo'' @ '' = ('' @ ''a) => a; const kk = 1'')))
   \<and> ''kk'' \<in> set (constants (extract_typescript_symbols
        (''export '' @ ''const '' @ ''foo'' @ '' = ('' @ ''a) => a; const kk = 1'')))
   \<and> [CHR 0x0A, CHR '' ''] \<noteq> [] \<and> list_all is_space [CHR 0x0A, CHR '' ''] \<and> list_all is_space []
   \<and> ''foo'' \<notin> set (constants (extract_typescript_symbols
        (''let x; '' @ ''const'' @ [CHR 0x0A, CHR '' ''] @ ''foo'' @ [] @ ''='' @ [] @ ''('' @ '') => 1'')))"
proof -
  have a: "''foo'' \<in> set (findall const_pattern (''export '' @ ''const '' @ ''foo'' @ '' = ('' @ ''a) => a; const kk = 1''))"
    by code_simp
  have b: "''kk'' \<in> set (constants (extract_typescript_symbols
        (''export '' @ ''const '' @ ''foo'' @ '' = ('' @ ''a) => a; const kk = 1'')))"
    unfolding extract_fields by code_simp
  have h: "[CHR 0x0A, CHR '' ''] \<noteq> [] \<and> list_all is_space [CHR 0x0A, CHR '' ''] \<and> list_all is_space []
      \<and> list_all is_space []"
    by (simp add: is_space_def)
  from const_function_binding_excluded [of "''foo''" "''export ''" "''a) => a; const kk = 1''"]
    const_function_binding_excluded [of "''foo''" "''let x; ''" "'') => 1''" "[CHR 0x0A, CHR '' '']" "[]" "[]"]
    a b h
  show ?thesis by blast
qed

section \<open>The call scans\<close>

text \<open>
  The captures of a scan do not depend on the offset from which the spans are counted;
  text in which no match begins is skipped, and after a match the scan goes on behind it.
\<close>

lemma finditer_offset:
  "map (\<lambda>m. snd (snd m)) (finditer r i s) = map (\<lambda>m. snd (snd m)) (finditer r i' s)"
proof (induction r i s arbitrary: i' rule: finditer.induct)
  case (1 r i s)
  note unf = finditer.simps [of r i s] and unf' = finditer.simps [of r i' s]
  show ?case
  proof (cases "run r s None")
    case Nil
    show ?thesis
    proof (cases s)
      case Nil
      with \<open>run r s None = []\<close> show ?thesis unfolding unf unf' by simp
    next
      case (Cons x t)
      from "1.IH"(1) [OF \<open>run r s None = []\<close> Cons, of "Suc i'"] \<open>run r s None = []\<close> Cons
      show ?thesis unfolding unf unf' by simp
    qed
  next
    case (Cons p ps)
    show ?thesis
    proof (cases "length (fst p) < length s")
      case True
      from "1.IH"(2) [OF Cons True, of "i' + (length s - length (fst p))"] Cons True
      show ?thesis unfolding unf unf' by simp
    next
      case False
      show ?thesis
      proof (cases s)
        case Nil
        with Cons False show ?thesis unfolding unf unf' by simp
      next
        case (Cons x t)
        from "1.IH"(3) [OF \<open>run r s None = p # ps\<close> False Cons, of "Suc i'"]
          \<open>run r s None = p # ps\<close> False Cons
        show ?thesis unfolding unf unf' by simp
      qed
    qed
  qed
qed

lemma findall_finditer: "findall r s = map (\<lambda>m. snd (snd m)) (finditer r i s)"
  unfolding findall_def by (rule finditer_offset)

lemma findall_skip:
  "(\<forall>k < length pre. run r (drop k (pre @ s)) None = []) \<Longrightarrow> findall r (pre @ s) = findall r s"
proof (induction pre)
  case Nil
  show ?case by simp
next
  case (Cons x pre)
  from Cons.prems have 0: "run r (x # pre @ s) None = []" by force
  have "\<forall>k < length pre. run r (drop k (pre @ s)) None = []"
  proof (intro allI impI)
    fix k assume "k < length pre"
    then have "Suc k < length (x # pre)" by simp
    with Cons.prems have "run r (drop (Suc k) ((x # pre) @ s)) None = []" by blast
    then show "run r (drop k (pre @ s)) None = []" by simp
  qed
  then have ih: "findall r (pre @ s) = findall r s" by (rule Cons.IH)
  have "finditer r 0 (x # pre @ s) = finditer r (Suc 0) (pre @ s)"
    using 0 by (simp add: finditer.simps [of r 0 "x # pre @ s"])
  then have "findall r ((x # pre) @ s) = findall r (pre @ s)"
    by (simp add: findall_def findall_finditer [of r "pre @ s" "Suc 0", unfolded findall_def])
  with ih show ?case by simp
qed

lemma findall_match:
  assumes "run r s None = p # ps" "length (fst p) < length s"
  shows "findall r s = group1 (snd p) # findall r (fst p)"
proof -
  have "finditer r 0 s = (0, 0 + (length s - length (fst p)), group1 (snd p))
          # finditer r (0 + (length s - length (fst p))) (fst p)"
    using assms by (simp add: finditer.simps [of r 0 s])
  then show ?thesis
    by (simp add: findall_def
        findall_finditer [of r "fst p" "length s - length (fst p)", unfolded findall_def])
qed

lemma findall_none:
  assumes "\<forall>k \<le> length s. run r (drop k s) None = []"
  shows "findall r s = []"
proof -
  have "\<forall>k < length s. run r (drop k (s @ [])) None = []" using assms by simp
  then have "findall r (s @ []) = findall r []" by (rule findall_skip)
  moreover have "run r [] None = []" using assms by force
  then have "findall r [] = []" by (simp add: findall_def finditer.simps [of r 0 "[]"])
  ultimately show ?thesis by simp
qed


lemma takeWhile_until: "list_all P xs \<Longrightarrow> \<not> P y \<Longrightarrow> takeWhile P (xs @ y # r) = xs"
  by (induction xs) auto

lemma quote_not_space: "q \<in> {CHR 0x27, CHR 0x22} \<Longrightarrow> \<not> is_space q"
  by (auto simp: is_space_def)

lemma matches_call_tail:
  "matches call_tail t c c' \<longleftrightarrow>
     (\<exists>ws q1 g q2. t = ws @ [q1] @ g @ [q2] \<and> list_all is_space ws
        \<and> q1 \<in> {CHR 0x27, CHR 0x22} \<and> q2 \<in> {CHR 0x27, CHR 0x22}
        \<and> g \<noteq> [] \<and> list_all (\<lambda>x. x \<notin> {CHR 0x27, CHR 0x22}) g \<and> c' = Some g)"
proof
  assume "matches call_tail t c c'"
  then obtain ws m1 c1 where 1: "t = ws @ m1" "matches (Star Space) ws c c1"
    "matches (Seq (Cls quote) (Seq (Grp (Plus not_quote)) (Cls quote))) m1 c1 c'"
    unfolding call_tail_def by (rule matches_SeqE)
  from 1(3) obtain l1 m2 c2 where 2: "m1 = l1 @ m2" "matches (Cls quote) l1 c1 c2"
    "matches (Seq (Grp (Plus not_quote)) (Cls quote)) m2 c2 c'"
    by (rule matches_SeqE)
  from 2(3) obtain g l2 c3 where 3: "m2 = g @ l2" "matches (Grp (Plus not_quote)) g c2 c3"
    "matches (Cls quote) l2 c3 c'"
    by (rule matches_SeqE)
  have a: "list_all is_space ws" using 1(2) by (simp add: list_all_iff)
  from 2(2) obtain q1 where b: "l1 = [q1]" "q1 \<in> {CHR 0x27, CHR 0x22}"
    by (auto simp: quote_def)
  have c: "g \<noteq> []" "list_all (\<lambda>x. x \<notin> {CHR 0x27, CHR 0x22}) g" "c3 = Some g"
    using 3(2) by (auto simp: not_quote_def list_all_iff)
  from 3(3) obtain q2 where d: "l2 = [q2]" "q2 \<in> {CHR 0x27, CHR 0x22}" "c' = c3"
    by (auto simp: quote_def)
  have "t = ws @ [q1] @ g @ [q2]" using 1(1) 2(1) 3(1) b(1) d(1) by simp
  with a b(2) c d(2,3) show "\<exists>ws q1 g q2. t = ws @ [q1] @ g @ [q2] \<and> list_all is_space ws
        \<and> q1 \<in> {CHR 0x27, CHR 0x22} \<and> q2 \<in> {CHR 0x27, CHR 0x22}
        \<and> g \<noteq> [] \<and> list_all (\<lambda>x. x \<notin> {CHR 0x27, CHR 0x22}) g \<and> c' = Some g"
    by blast
next
  assume "\<exists>ws q1 g q2. t = ws @ [q1] @ g @ [q2] \<and> list_all is_space ws
        \<and> q1 \<in> {CHR 0x27, CHR 0x22} \<and> q2 \<in> {CHR 0x27, CHR 0x22}
        \<and> g \<noteq> [] \<and> list_all (\<lambda>x. x \<notin> {CHR 0x27, CHR 0x22}) g \<and> c' = Some g"
  then obtain ws q1 g q2 where t: "t = ws @ [q1] @ g @ [q2]" and a: "list_all is_space ws"
    and q: "q1 \<in> {CHR 0x27, CHR 0x22}" "q2 \<in> {CHR 0x27, CHR 0x22}"
    and g: "g \<noteq> []" "list_all (\<lambda>x. x \<notin> {CHR 0x27, CHR 0x22}) g" and c': "c' = Some g"
    by blast
  have 1: "matches (Star Space) ws c c" using a by (simp add: list_all_iff)
  have 2: "matches (Cls quote) [q1] c c" using q(1) by (auto simp: quote_def)
  have "list_all (in_cls not_quote) g"
    using g(2) by (simp add: not_quote_def list_all_iff)
  then have "matches (Plus not_quote) g c c"
    using g(1) by simp
  then have 3: "matches (Grp (Plus not_quote)) g c (Some g)"
    by (subst matches.simps) blast
  have 4: "matches (Cls quote) [q2] (Some g) (Some g)" using q(2) by (auto simp: quote_def)
  have "matches call_tail (ws @ [q1] @ g @ [q2]) c (Some g)"
    unfolding call_tail_def
    by (rule matches_SeqI [OF 1], rule matches_SeqI [OF 2], rule matches_SeqI [OF 3], rule 4)
  with t c' show "matches call_tail t c c'" by simp
qed

lemma call_tail_unique:
  assumes "matches call_tail t c c'" "matches call_tail t' d d'" "t @ rest = t' @ rest'"
  shows "t = t' \<and> c' = d'"
proof -
  from assms(1) obtain ws q1 g q2 where t: "t = ws @ [q1] @ g @ [q2]"
    and a: "list_all is_space ws" "q1 \<in> {CHR 0x27, CHR 0x22}" "q2 \<in> {CHR 0x27, CHR 0x22}"
      "list_all (\<lambda>x. x \<notin> {CHR 0x27, CHR 0x22}) g" "c' = Some g"
    unfolding matches_call_tail by blast
  from assms(2) obtain ws' q1' g' q2' where t': "t' = ws' @ [q1'] @ g' @ [q2']"
    and a': "list_all is_space ws'" "q1' \<in> {CHR 0x27, CHR 0x22}" "q2' \<in> {CHR 0x27, CHR 0x22}"
      "list_all (\<lambda>x. x \<notin> {CHR 0x27, CHR 0x22}) g'" "d' = Some g'"
    unfolding matches_call_tail by blast
  have eq: "ws @ q1 # (g @ q2 # rest) = ws' @ q1' # (g' @ q2' # rest')"
    using assms(3) t t' by simp
  have "takeWhile is_space (ws @ q1 # (g @ q2 # rest)) = ws"
    using a(1) quote_not_space [OF a(2)] by (rule takeWhile_until)
  moreover have "takeWhile is_space (ws' @ q1' # (g' @ q2' # rest')) = ws'"
    using a'(1) quote_not_space [OF a'(2)] by (rule takeWhile_until)
  ultimately have ws: "ws = ws'" using eq by simp
  with eq have q1: "q1 = q1'" and eq2: "g @ q2 # rest = g' @ q2' # rest'" by simp_all
  have "takeWhile (\<lambda>x. x \<notin> {CHR 0x27, CHR 0x22}) (g @ q2 # rest) = g"
    using a(4) a(3) by (intro takeWhile_until) simp_all
  moreover have "takeWhile (\<lambda>x. x \<notin> {CHR 0x27, CHR 0x22}) (g' @ q2' # rest') = g'"
    using a'(4) a'(3) by (intro takeWhile_until) simp_all
  ultimately have g: "g = g'" using eq2 by simp
  with eq2 have "q2 = q2'" by simp
  with ws q1 g t t' a(5) a'(5) show ?thesis by simp
qed


lemma call_scan_matches:
  assumes "call_scan names r"
  shows "matches r m None c' \<longleftrightarrow>
     (\<exists>name ws q1 q2 g. m = name @ ''('' @ ws @ [q1] @ g @ [q2] \<and> name \<in> set names
        \<and> list_all is_space ws \<and> q1 \<in> {CHR 0x27, CHR 0x22} \<and> q2 \<in> {CHR 0x27, CHR 0x22}
        \<and> g \<noteq> [] \<and> list_all (\<lambda>x. x \<notin> {CHR 0x27, CHR 0x22}) g \<and> c' = Some g)"
proof -
  have "matches r m None c' \<longleftrightarrow>
      (\<exists>name t. name \<in> set names \<and> m = name @ ''('' @ t \<and> matches call_tail t None c')"
    using assms unfolding call_scan_def by blast
  then show ?thesis
    unfolding matches_call_tail by blast
qed

lemma call_span_matches:
  assumes "call_scan names r"
  shows "call_span names C j e g \<longleftrightarrow>
     j \<le> e \<and> e \<le> length C \<and> matches r (take (e - j) (drop j C)) None (Some g)"
  unfolding call_span_def call_scan_matches [OF assms] by blast

lemma call_scan_unique:
  assumes cs: "call_scan names r"
    and m: "matches r m None c'" and m': "matches r m' None c''"
    and eq: "m @ rest = m' @ rest'"
  shows "m = m' \<and> c' = c''"
proof -
  from cs m obtain n t where 1: "n \<in> set names" "m = n @ ''('' @ t" "matches call_tail t None c'"
    unfolding call_scan_def by blast
  from cs m' obtain n' t' where 2: "n' \<in> set names" "m' = n' @ ''('' @ t'"
    "matches call_tail t' None c''"
    unfolding call_scan_def by blast
  have e1: "n @ ''('' @ (t @ rest) = n' @ ''('' @ (t' @ rest')"
    using eq 1(2) 2(2) by simp
  with cs 1(1) 2(1) have n: "n = n'"
    unfolding call_scan_def by blast
  with e1 have "t @ rest = t' @ rest'" by simp
  with 1(3) 2(3) have "t = t' \<and> c' = c''" by (rule call_tail_unique)
  with n 1(2) 2(2) show ?thesis by simp
qed

lemma call_scan_nonempty:
  assumes "call_scan names r" "matches r m None c'"
  shows "m \<noteq> []"
  using assms unfolding call_scan_def by auto

lemma no_call_run:
  assumes cs: "call_scan names r" and no: "\<forall>e g. \<not> call_span names C k e g"
  shows "run r (drop k C) None = []"
proof (cases "run r (drop k C) None")
  case (Cons p ps)
  from run_hd_matches [OF Cons] obtain m where m: "drop k C = m @ fst p"
    "matches r m None (snd p)" by blast
  from m(2) obtain g where g: "snd p = Some g"
    unfolding call_scan_matches [OF cs] by blast
  have ne: "m \<noteq> []" using cs m(2) by (rule call_scan_nonempty)
  have "length (drop k C) = length (m @ fst p)" using m(1) by (rule arg_cong)
  then have "length C - k = length m + length (fst p)" by simp
  moreover have "0 < length m" using ne by simp
  ultimately have l: "k + length m \<le> length C" by linarith
  have "take (length m) (drop k C) = m" using m(1) by simp
  then have "matches r (take (k + length m - k) (drop k C)) None (Some g)"
    using m(2) g by simp
  with l have "call_span names C k (k + length m) g"
    unfolding call_span_matches [OF cs] by simp
  with no show ?thesis by blast
qed simp

lemma call_run:
  assumes cs: "call_scan names r" and c: "call_span names C k e g"
  shows "\<exists>ps. run r (drop k C) None = (drop e C, Some g) # ps"
proof -
  define s where "s = drop k C"
  define M where "M = take (e - k) s"
  define R where "R = drop e C"
  from c have b: "k \<le> e" "e \<le> length C" and mt: "matches r M None (Some g)"
    unfolding call_span_matches [OF cs] M_def s_def by simp_all
  have "drop (e - k) s = R" using b by (simp add: s_def R_def)
  moreover have "s = take (e - k) s @ drop (e - k) s"
    by (simp only: append_take_drop_id)
  ultimately have sp: "s = M @ R" by (simp only: M_def)
  then have "(R, Some g) \<in> set (run r s None)"
    unfolding run_matches using mt by blast
  then obtain p ps where run: "run r s None = p # ps"
    by (cases "run r s None") auto
  from run_hd_matches [OF run] obtain m where m: "s = m @ fst p"
    "matches r m None (snd p)" by blast
  have "M @ R = m @ fst p" using sp m(1) by simp
  with cs mt m(2) have u: "M = m \<and> Some g = snd p"
    by (rule call_scan_unique)
  with sp m(1) have "fst p = R" by simp
  with u run have "run r s None = (R, Some g) # ps"
    by (cases p) simp
  then show ?thesis unfolding s_def R_def ..
qed

lemma call_scan_none:
  assumes cs: "call_scan names r" and no: "\<forall>k e g. \<not> call_span names C k e g"
  shows "findall r C = []"
proof (rule findall_none, intro allI impI)
  fix k
  from no have "\<forall>e g. \<not> call_span names C k e g" by blast
  with cs show "run r (drop k C) None = []" by (rule no_call_run)
qed

lemma call_scan_first:
  assumes cs: "call_scan names r" and c: "call_span names C j e g"
    and no: "\<forall>k<j. \<forall>e' g'. \<not> call_span names C k e' g'"
  shows "findall r C = g # findall r (drop e C)"
proof -
  from c have b: "j \<le> e" "e \<le> length C"
    and mt: "matches r (take (e - j) (drop j C)) None (Some g)"
    unfolding call_span_matches [OF cs] by simp_all
  have ne: "take (e - j) (drop j C) \<noteq> []" using cs mt by (rule call_scan_nonempty)
  then have lt: "j < e" by (cases "e - j") auto
  have "\<forall>k < length (take j C). run r (drop k (take j C @ drop j C)) None = []"
  proof (intro allI impI)
    fix k assume "k < length (take j C)"
    then have "k < j" by simp
    with no have "\<forall>e g. \<not> call_span names C k e g" by blast
    with cs have "run r (drop k C) None = []" by (rule no_call_run)
    then show "run r (drop k (take j C @ drop j C)) None = []" by simp
  qed
  then have "findall r (take j C @ drop j C) = findall r (drop j C)" by (rule findall_skip)
  then have 1: "findall r C = findall r (drop j C)" by simp
  from call_run [OF cs c] obtain ps where
    run: "run r (drop j C) None = (drop e C, Some g) # ps" by blast
  have "length (fst (drop e C, Some g)) < length (drop j C)"
    using lt b by simp
  from findall_match [OF run this] have "findall r (drop j C) = g # findall r (drop e C)"
    by simp
  with 1 show ?thesis by simp
qed

lemma call_scan_test: "call_scan [''it'', ''test''] test_pattern"
  unfolding call_scan_def test_pattern_def seqs.simps call_tail_def [symmetric]
proof (intro conjI allI)
  fix m c'
  let ?r = "Seq (Alt (Lit ''it'') (Lit ''test'')) (Seq (Lit ''('') call_tail)"
  show "matches ?r m None c' \<longleftrightarrow>
        (\<exists>name t. name \<in> set [''it'', ''test''] \<and> m = name @ ''('' @ t
            \<and> matches call_tail t None c')"
  proof
    assume "matches ?r m None c'"
    then obtain m1 m2 c1 where 1: "m = m1 @ m2" "matches (Alt (Lit ''it'') (Lit ''test'')) m1 None c1"
      "matches (Seq (Lit ''('') call_tail) m2 c1 c'"
      by (rule matches_SeqE)
    from 1(3) obtain l t c2 where 2: "m2 = l @ t" "matches (Lit ''('') l c1 c2"
      "matches call_tail t c2 c'"
      by (rule matches_SeqE)
    from 1(2) have a: "m1 \<in> set [''it'', ''test'']" "c1 = None" by auto
    from 2(2) have b: "l = ''(''" "c2 = c1" by simp_all
    from 1(1) 2(1) b(1) have "m = m1 @ ''('' @ t" by simp
    moreover from 2(3) a(2) b(2) have "matches call_tail t None c'" by simp
    ultimately show "\<exists>name t. name \<in> set [''it'', ''test''] \<and> m = name @ ''('' @ t
            \<and> matches call_tail t None c'"
      using a(1) by blast
  next
    assume "\<exists>name t. name \<in> set [''it'', ''test''] \<and> m = name @ ''('' @ t
            \<and> matches call_tail t None c'"
    then obtain name t where n: "name \<in> set [''it'', ''test'']" and m: "m = name @ ''('' @ t"
      and t: "matches call_tail t None c'" by blast
    from n have 1: "matches (Alt (Lit ''it'') (Lit ''test'')) name None None" by auto
    have 2: "matches (Lit ''('') ''('' None None" by simp
    have "matches ?r (name @ ''('' @ t) None c'"
      by (rule matches_SeqI [OF 1], rule matches_SeqI [OF 2], rule t)
    with m show "matches ?r m None c'" by simp
  qed
next
  show "\<forall>n\<in>set [''it'', ''test'']. \<forall>n'\<in>set [''it'', ''test''].
          \<forall>x y. n @ ''('' @ x = n' @ ''('' @ y \<longrightarrow> n = n'"
    by auto
qed

lemma call_scan_Lit:
  "call_scan [name] (Seq (Lit (name @ ''('')) call_tail)"
  unfolding call_scan_def
proof (intro conjI allI)
  fix m c'
  let ?r = "Seq (Lit (name @ ''('')) call_tail"
  show "matches ?r m None c' \<longleftrightarrow>
        (\<exists>n t. n \<in> set [name] \<and> m = n @ ''('' @ t \<and> matches call_tail t None c')"
  proof
    assume "matches ?r m None c'"
    then obtain l t c1 where 1: "m = l @ t" "matches (Lit (name @ ''('')) l None c1"
      "matches call_tail t c1 c'"
      by (rule matches_SeqE)
    from 1(2) have a: "l = name @ ''(''" "c1 = None" by simp_all
    from 1(1) a(1) have "m = name @ ''('' @ t" by simp
    moreover from 1(3) a(2) have "matches call_tail t None c'" by simp
    ultimately show "\<exists>n t. n \<in> set [name] \<and> m = n @ ''('' @ t \<and> matches call_tail t None c'"
      by simp
  next
    assume "\<exists>n t. n \<in> set [name] \<and> m = n @ ''('' @ t \<and> matches call_tail t None c'"
    then obtain t where m: "m = name @ ''('' @ t" and t: "matches call_tail t None c'"
      by auto
    have 1: "matches (Lit (name @ ''('')) (name @ ''('') None None" by simp
    have "matches ?r ((name @ ''('') @ t) None c'"
      by (rule matches_SeqI [OF 1 t])
    with m show "matches ?r m None c'" by simp
  qed
next
  show "\<forall>n\<in>set [name]. \<forall>n'\<in>set [name]. \<forall>x y. n @ ''('' @ x = n' @ ''('' @ y \<longrightarrow> n = n'"
    by simp
qed

lemma call_scan_bench: "call_scan [''bench''] bench_pattern"
  using call_scan_Lit [of "''bench''"]
  unfolding bench_pattern_def seqs.simps call_tail_def [symmetric] by simp

lemma call_scan_describe: "call_scan [''describe''] describe_pattern"
  using call_scan_Lit [of "''describe''"]
  unfolding describe_pattern_def seqs.simps call_tail_def [symmetric] by simp


lemma call_span_from_run:
  assumes cs: "call_scan names r"
    and run: "run r (drop j C) None = (drop e C, Some g) # ps" and b: "j \<le> e" "e \<le> length C"
  shows "call_span names C j e g"
proof -
  have "(drop e C, Some g) \<in> set (run r (drop j C) None)" using run by simp
  then obtain m where m: "drop j C = m @ drop e C" "matches r m None (Some g)"
    unfolding run_matches by blast
  have "length (drop j C) = length (m @ drop e C)" using m(1) by (rule arg_cong)
  then have "length m = e - j" using b by simp
  then have "take (e - j) (drop j C) = m" using m(1) by simp
  with m(2) b show ?thesis
    unfolding call_span_matches [OF cs] by simp
qed

lemma no_calls_from_runs:
  assumes cs: "call_scan names r"
    and no: "\<forall>k \<in> set [0 ..< Suc (length C)]. run r (drop k C) None = []"
  shows "\<forall>k e g. \<not> call_span names C k e g"
proof (intro allI notI)
  fix k e g assume c: "call_span names C k e g"
  then have "k \<le> length C" unfolding call_span_def by auto
  then have "k \<in> set [0 ..< Suc (length C)]" unfolding set_upt atLeastLessThan_iff by simp
  with no have "run r (drop k C) None = []" by (rule bspec)
  with call_run [OF cs c] show False by simp
qed

text \<open>
  C7. \<open>extract_test_behaviors\<close> lists the arguments of the calls in the order of the
  content and keeps what occurs twice: when no call occurs in the content, the result
  is empty; when the first call of the content spans from \<open>j\<close> to \<open>e\<close> and has the
  argument \<open>g\<close>, the result is \<open>g\<close> followed by the result for the content behind
  \<open>e\<close>. These two equations determine the result for every content. Two identical
  \<^verbatim>\<open>test("x", ...)\<close> calls give \<^verbatim>\<open>["x", "x"]\<close>.
\<close>

theorem test_behaviors_in_file_order:
  "((\<forall>k e g. \<not> call_span [''it'', ''test''] C k e g) \<longrightarrow> extract_test_behaviors C = [])
   \<and> (call_span [''it'', ''test''] C j e g
        \<and> (\<forall>k<j. \<forall>e' g'. \<not> call_span [''it'', ''test''] C k e' g')
      \<longrightarrow> extract_test_behaviors C = g # extract_test_behaviors (drop e C))
   \<and> extract_test_behaviors ''test(\"x\", f); test(\"x\", g);'' = [''x'', ''x'']"
proof (intro conjI impI)
  assume "\<forall>k e g. \<not> call_span [''it'', ''test''] C k e g"
  with call_scan_test show "extract_test_behaviors C = []"
    unfolding extract_test_behaviors_def by (rule call_scan_none)
next
  assume "call_span [''it'', ''test''] C j e g
        \<and> (\<forall>k<j. \<forall>e' g'. \<not> call_span [''it'', ''test''] C k e' g')"
  then show "extract_test_behaviors C = g # extract_test_behaviors (drop e C)"
    unfolding extract_test_behaviors_def
    using call_scan_first [OF call_scan_test] by blast
next
  show "extract_test_behaviors ''test(\"x\", f); test(\"x\", g);'' = [''x'', ''x'']"
    by code_simp
qed

theorem test_behaviors_in_file_order_witness:
  "extract_test_behaviors ''describe(\"s\", f)'' = []
   \<and> call_span [''it'', ''test''] ''test(\"x\", f); test(\"x\", g);'' 0 8 ''x''
   \<and> extract_test_behaviors ''test(\"x\", f); test(\"x\", g);''
       = ''x'' # extract_test_behaviors (drop 8 ''test(\"x\", f); test(\"x\", g);'')"
proof -
  let ?C1 = "''describe(\"s\", f)''" and ?C = "''test(\"x\", f); test(\"x\", g);''"
  have "\<forall>k \<in> set [0 ..< Suc (length ?C1)]. run test_pattern (drop k ?C1) None = []"
    by code_simp
  with call_scan_test have no: "\<forall>k e g. \<not> call_span [''it'', ''test''] ?C1 k e g"
    by (rule no_calls_from_runs)
  have "run test_pattern (drop 0 ?C) None = (drop 8 ?C, Some ''x'') # []"
    by code_simp
  with call_scan_test have c: "call_span [''it'', ''test''] ?C 0 8 ''x''"
    by (rule call_span_from_run) simp_all
  have first: "\<forall>k<0::nat. \<forall>e' g'. \<not> call_span [''it'', ''test''] ?C k e' g'" by simp
  from test_behaviors_in_file_order [of ?C1] no
  have 1: "extract_test_behaviors ?C1 = []" by blast
  from test_behaviors_in_file_order [of ?C 0 8 "''x''"] c first
  have 2: "extract_test_behaviors ?C = ''x'' # extract_test_behaviors (drop 8 ?C)" by blast
  from 1 c 2 show ?thesis by (intro conjI)
qed


text \<open>
  C8, as the code has it. \<open>extract_benchmark_names\<close> has no duplicates, and its
  elements are those of the \<^verbatim>\<open>bench(\<close> scan and of the \<^verbatim>\<open>describe(\<close> scan. Each scan goes
  through the content from left to right: it finds nothing when its call does not
  occur, and otherwise the argument of the first occurrence followed by what it finds
  behind that occurrence. An occurrence is the letters \<^verbatim>\<open>bench(\<close> or \<^verbatim>\<open>describe(\<close>,
  whitespace, and a non-empty text without quote characters between two quote
  characters. Two identical \<^verbatim>\<open>bench("y", ...)\<close> calls give the one name \<^verbatim>\<open>y\<close>.
\<close>

theorem extract_benchmarks_dedup:
  "distinct (extract_benchmark_names C)
   \<and> set (extract_benchmark_names C)
       = set (findall bench_pattern C) \<union> set (findall describe_pattern C)
   \<and> ((\<forall>k e g. \<not> call_span [''bench''] C k e g) \<longrightarrow> findall bench_pattern C = [])
   \<and> (call_span [''bench''] C j e g \<and> (\<forall>k<j. \<forall>e' g'. \<not> call_span [''bench''] C k e' g')
      \<longrightarrow> findall bench_pattern C = g # findall bench_pattern (drop e C))
   \<and> ((\<forall>k e g. \<not> call_span [''describe''] C k e g) \<longrightarrow> findall describe_pattern C = [])
   \<and> (call_span [''describe''] C i d h
        \<and> (\<forall>k<i. \<forall>e' g'. \<not> call_span [''describe''] C k e' g')
      \<longrightarrow> findall describe_pattern C = h # findall describe_pattern (drop d C))
   \<and> extract_benchmark_names ''bench(\"y\", f); bench(\"y\", g);'' = [''y'']"
proof -
  have 1: "distinct (extract_benchmark_names C)"
    by (simp add: extract_benchmark_names_def)
  have 2: "set (extract_benchmark_names C)
       = set (findall bench_pattern C) \<union> set (findall describe_pattern C)"
    by (simp add: extract_benchmark_names_def)
  have 3: "(\<forall>k e g. \<not> call_span [''bench''] C k e g) \<longrightarrow> findall bench_pattern C = []"
    using call_scan_none [OF call_scan_bench] by blast
  have 4: "call_span [''bench''] C j e g \<and> (\<forall>k<j. \<forall>e' g'. \<not> call_span [''bench''] C k e' g')
      \<longrightarrow> findall bench_pattern C = g # findall bench_pattern (drop e C)"
    using call_scan_first [OF call_scan_bench] by blast
  have 5: "(\<forall>k e g. \<not> call_span [''describe''] C k e g) \<longrightarrow> findall describe_pattern C = []"
    using call_scan_none [OF call_scan_describe] by blast
  have 6: "call_span [''describe''] C i d h
        \<and> (\<forall>k<i. \<forall>e' g'. \<not> call_span [''describe''] C k e' g')
      \<longrightarrow> findall describe_pattern C = h # findall describe_pattern (drop d C)"
    using call_scan_first [OF call_scan_describe] by blast
  have 7: "extract_benchmark_names ''bench(\"y\", f); bench(\"y\", g);'' = [''y'']"
    by code_simp
  show ?thesis
    by (intro conjI) (rule 1, rule 2, rule 3, rule 4, rule 5, rule 6, rule 7)
qed

theorem extract_benchmarks_dedup_witness:
  "call_span [''bench''] ''bench('b', f)'' 0 9 ''b''
   \<and> findall bench_pattern ''bench('b', f)'' = ''b'' # findall bench_pattern (drop 9 ''bench('b', f)'')
   \<and> findall describe_pattern ''bench('b', f)'' = []
   \<and> call_span [''describe''] ''describe(\"s\", g)'' 0 12 ''s''
   \<and> findall describe_pattern ''describe(\"s\", g)''
       = ''s'' # findall describe_pattern (drop 12 ''describe(\"s\", g)'')
   \<and> findall bench_pattern ''describe(\"s\", g)'' = []"
proof -
  let ?B = "''bench('b', f)''" and ?D = "''describe(\"s\", g)''"
  have "run bench_pattern (drop 0 ?B) None = (drop 9 ?B, Some ''b'') # []"
    by code_simp
  with call_scan_bench have b: "call_span [''bench''] ?B 0 9 ''b''"
    by (rule call_span_from_run) simp_all
  have "run describe_pattern (drop 0 ?D) None = (drop 12 ?D, Some ''s'') # []"
    by code_simp
  with call_scan_describe have d: "call_span [''describe''] ?D 0 12 ''s''"
    by (rule call_span_from_run) simp_all
  have "\<forall>k \<in> set [0 ..< Suc (length ?B)]. run describe_pattern (drop k ?B) None = []"
    by code_simp
  with call_scan_describe have nd: "\<forall>k e g. \<not> call_span [''describe''] ?B k e g"
    by (rule no_calls_from_runs)
  have "\<forall>k \<in> set [0 ..< Suc (length ?D)]. run bench_pattern (drop k ?D) None = []"
    by code_simp
  with call_scan_bench have nb: "\<forall>k e g. \<not> call_span [''bench''] ?D k e g"
    by (rule no_calls_from_runs)
  have z: "\<forall>k<0::nat. \<forall>e' g'. \<not> call_span [''bench''] ?B k e' g'"
    "\<forall>k<0::nat. \<forall>e' g'. \<not> call_span [''describe''] ?D k e' g'" by simp_all
  from extract_benchmarks_dedup [of ?B 0 9 "''b''"] b z(1) nd
  have 1: "findall bench_pattern ?B = ''b'' # findall bench_pattern (drop 9 ?B)"
    and 2: "findall describe_pattern ?B = []" by blast+
  from extract_benchmarks_dedup [of ?D _ _ _ 0 12 "''s''"] d z(2) nb
  have 3: "findall describe_pattern ?D = ''s'' # findall describe_pattern (drop 12 ?D)"
    and 4: "findall bench_pattern ?D = []" by blast+
  from b 1 2 d 3 4 show ?thesis by (intro conjI)
qed

text \<open>
  C8, as stated, fails: the scan has no word boundary before \<^verbatim>\<open>bench\<close>, so that the
  argument of a call to \<^verbatim>\<open>workbench\<close> is returned as a benchmark name.
\<close>

theorem extract_benchmarks_other_callee_counterexample:
  "extract_benchmark_names ''workbench('a')'' = [''a'']
   \<and> finditer bench_pattern 0 ''workbench('a')'' = [(4, 13, ''a'')]
   \<and> callee_before (take 9 ''workbench('a')'') = ''workbench''"
  by code_simp

section \<open>Exported functions\<close>

text \<open>
  When the first match at some place of the content captures \<open>g\<close>, the scan reports
  \<open>g\<close>, unless a match that it reports from further left runs over that place with
  another capture.
\<close>

lemma finditer_hits:
  assumes "\<forall>(j, e, g') \<in> set (finditer r i (pre @ tgt)).
             j < i + length pre \<and> i + length pre < e \<longrightarrow> g' = g"
    and "run r tgt None = q # qs" "group1 (snd q) = g" "length (fst q) < length tgt"
  shows "\<exists>j e. (j, e, g) \<in> set (finditer r i (pre @ tgt))"
  using assms(1)
proof (induction "length pre" arbitrary: pre i rule: less_induct)
  case less
  note ov = less.prems
  let ?s = "pre @ tgt"
  note unf = finditer.simps [of r i ?s]
  show ?case
  proof (cases pre)
    case Nil
    then have "(i, i + (length tgt - length (fst q)), g) \<in> set (finditer r i ?s)"
      using assms(2,3) by (simp add: finditer.simps [of r i tgt])
    then show ?thesis by blast
  next
    case (Cons x pre')
    have step: ?thesis if sub: "set (finditer r (Suc i) (pre' @ tgt)) \<subseteq> set (finditer r i ?s)"
    proof -
      have "\<forall>(j, e, g') \<in> set (finditer r (Suc i) (pre' @ tgt)).
               j < Suc i + length pre' \<and> Suc i + length pre' < e \<longrightarrow> g' = g"
        using ov sub Cons by auto
      from less.hyps [OF _ this] Cons
      obtain j e where "(j, e, g) \<in> set (finditer r (Suc i) (pre' @ tgt))" by auto
      with sub show ?thesis by blast
    qed
    show ?thesis
    proof (cases "run r ?s None")
      case Nil
      then have "finditer r i ?s = finditer r (Suc i) (pre' @ tgt)"
        unfolding unf using \<open>pre = x # pre'\<close> by simp
      then show ?thesis using step by simp
    next
      case (Cons p ps)
      let ?n = "length ?s - length (fst p)"
      have first: "(i, i + ?n, group1 (snd p)) \<in> set (finditer r i ?s)"
        using Cons by (simp add: unf)
      from run_hd_matches [OF Cons] obtain m where m: "?s = m @ fst p" by blast
      then have n: "?n = length m" by (metis add_diff_cancel_right' length_append)
      show ?thesis
      proof (cases "i + length pre < i + ?n")
        case True
        moreover have "i < i + length pre" using \<open>pre = x # pre'\<close> by simp
        ultimately have "group1 (snd p) = g" using ov first by blast
        with first show ?thesis by blast
      next
        case False
        then have le: "?n \<le> length pre" by simp
        show ?thesis
        proof (cases "length (fst p) < length ?s")
          case True
          then have pos: "0 < ?n" by simp
          have fp: "fst p = drop ?n pre @ tgt"
          proof -
            have "fst p = drop (length m) ?s" using m by (metis append_eq_conv_conj)
            then show ?thesis using n le by simp
          qed
          have sub: "set (finditer r (i + ?n) (drop ?n pre @ tgt)) \<subseteq> set (finditer r i ?s)"
            using Cons True fp by (auto simp: unf)
          have "\<forall>(j, e, g') \<in> set (finditer r (i + ?n) (drop ?n pre @ tgt)).
               j < i + ?n + length (drop ?n pre) \<and> i + ?n + length (drop ?n pre) < e \<longrightarrow> g' = g"
            using ov sub le by auto
          moreover have "length (drop ?n pre) < length pre"
            using pos \<open>pre = x # pre'\<close> by simp
          ultimately obtain j e where "(j, e, g) \<in> set (finditer r (i + ?n) (drop ?n pre @ tgt))"
            using less.hyps by blast
          with sub show ?thesis by blast
        next
          case False
          then have "set (finditer r (Suc i) (pre' @ tgt)) \<subseteq> set (finditer r i ?s)"
            unfolding unf using Cons \<open>pre = x # pre'\<close> by auto
          then show ?thesis by (rule step)
        qed
      qed
    qed
  qed
qed


lemma space_not_word: "is_space ch \<Longrightarrow> \<not> is_word ch"
  by (auto simp: is_space_def is_word_def Let_def)

lemma paren_not_space [simp]: "\<not> is_space CHR ''(''"
  by (simp add: is_space_def)

lemma paren_not_word [simp]: "\<not> is_word CHR ''(''"
  by (simp add: is_word_def)

lemma matches_func_pattern:
  assumes "matches func_pattern M None c'"
  shows "\<exists>p1 p2 ws3 w ws4.
           M = p1 @ p2 @ ''function'' @ ws3 @ w @ ws4 @ ''(''
           \<and> (p1 = [] \<or> (\<exists>ws. p1 = ''export'' @ ws \<and> list_all is_space ws))
           \<and> (p2 = [] \<or> (\<exists>ws. p2 = ''async'' @ ws \<and> list_all is_space ws))
           \<and> ws3 \<noteq> [] \<and> list_all is_space ws3
           \<and> w \<noteq> [] \<and> list_all is_word w
           \<and> list_all is_space ws4 \<and> c' = Some w"
proof -
  let ?r7 = "Lit ''(''"
  let ?r6 = "Seq (Star Space) ?r7"
  let ?r5 = "Seq (Grp (Plus Word)) ?r6"
  let ?r4 = "Seq (Plus Space) ?r5"
  let ?r3 = "Seq (Lit ''function'') ?r4"
  let ?r2 = "Seq (Opt (Seq (Lit ''async'') (Plus Space))) ?r3"
  from assms have "matches (Seq (Opt (Seq (Lit ''export'') (Plus Space))) ?r2) M None c'"
    unfolding func_pattern_def seqs.simps .
  then obtain p1 m1 c1 where 1: "M = p1 @ m1"
    "matches (Opt (Seq (Lit ''export'') (Plus Space))) p1 None c1" "matches ?r2 m1 c1 c'"
    by (rule matches_SeqE)
  from 1(3) obtain p2 m2 c2 where 2: "m1 = p2 @ m2"
    "matches (Opt (Seq (Lit ''async'') (Plus Space))) p2 c1 c2" "matches ?r3 m2 c2 c'"
    by (rule matches_SeqE)
  from 2(3) obtain l3 m3 c3 where 3: "m2 = l3 @ m3"
    "matches (Lit ''function'') l3 c2 c3" "matches ?r4 m3 c3 c'"
    by (rule matches_SeqE)
  from 3(3) obtain ws3 m4 c4 where 4: "m3 = ws3 @ m4"
    "matches (Plus Space) ws3 c3 c4" "matches ?r5 m4 c4 c'"
    by (rule matches_SeqE)
  from 4(3) obtain w m5 c5 where 5: "m4 = w @ m5"
    "matches (Grp (Plus Word)) w c4 c5" "matches ?r6 m5 c5 c'"
    by (rule matches_SeqE)
  from 5(3) obtain ws4 l7 c6 where 6: "m5 = ws4 @ l7"
    "matches (Star Space) ws4 c5 c6" "matches ?r7 l7 c6 c'"
    by (rule matches_SeqE)
  have a: "p1 = [] \<or> (\<exists>ws. p1 = ''export'' @ ws \<and> list_all is_space ws)"
    using 1(2) by (auto simp: list_all_iff)
  have b: "p2 = [] \<or> (\<exists>ws. p2 = ''async'' @ ws \<and> list_all is_space ws)"
    using 2(2) by (auto simp: list_all_iff)
  have c: "l3 = ''function''" using 3(2) by simp
  have d: "ws3 \<noteq> []" "list_all is_space ws3" using 4(2) by (simp_all add: list_all_iff)
  have e: "w \<noteq> []" "list_all is_word w" "c5 = Some w" using 5(2) by (auto simp: list_all_iff)
  have f: "list_all is_space ws4" "c6 = c5" using 6(2) by (simp_all add: list_all_iff)
  have g: "l7 = ''(''" "c' = c6" using 6(3) by simp_all
  have "M = p1 @ p2 @ ''function'' @ ws3 @ w @ ws4 @ ''(''"
    using 1(1) 2(1) 3(1) 4(1) 5(1) 6(1) c g(1) by simp
  moreover have "c' = Some w" using e(3) f(2) g(2) by simp
  ultimately show ?thesis using a b d e(1,2) f(1) by blast
qed


lemma takeWhile_rev_last: "U \<noteq> [] \<Longrightarrow> \<not> P (last U) \<Longrightarrow> takeWhile P (rev U) = []"
  by (cases U rule: rev_cases) auto

lemma takeWhile_rev_suffix:
  "list_all P w \<Longrightarrow> U \<noteq> [] \<Longrightarrow> \<not> P (last U) \<Longrightarrow> takeWhile P (rev (U @ w)) = rev w"
  by (induction w rule: rev_induct) (simp_all add: takeWhile_rev_last)

lemma word_suffix_unique:
  assumes eq: "U @ w = V @ f"
    and w: "list_all is_word w" and f: "list_all is_word f"
    and U: "U \<noteq> []" "\<not> is_word (last U)" and V: "V \<noteq> []" "\<not> is_word (last V)"
  shows "w = f"
proof -
  have "takeWhile is_word (rev (U @ w)) = rev w"
    using w U by (rule takeWhile_rev_suffix)
  moreover have "takeWhile is_word (rev (V @ f)) = rev f"
    using f V by (rule takeWhile_rev_suffix)
  ultimately have "rev w = rev f" using eq by simp
  then show ?thesis by simp
qed

lemma takeWhile_to_char: "c \<notin> set B \<Longrightarrow> takeWhile (\<lambda>ch. ch \<noteq> c) (B @ c # r) = B"
  by (induction B) auto

lemma takeWhile_has_char:
  "c \<in> set D \<Longrightarrow> length (takeWhile (\<lambda>ch. ch \<noteq> c) (D @ r)) < length D"
  by (induction D) auto

lemma blank_not_word [simp]: "\<not> is_word CHR '' ''"
  by (simp add: is_word_def)

lemma spaces_no_paren: "list_all is_space ws \<Longrightarrow> CHR ''('' \<notin> set ws"
  by (induction ws) auto

lemma words_no_paren: "list_all is_word w \<Longrightarrow> CHR ''('' \<notin> set w"
  by (induction w) auto

lemma func_capture:
  assumes m: "matches func_pattern M None c'"
    and S: "M @ rest = D @ X @ ''function '' @ f @ ''('' @ post"
    and len: "length D < length M"
    and X: "CHR ''('' \<notin> set X"
    and f: "f \<noteq> []" "list_all is_word f"
  shows "c' = Some f"
proof -
  from matches_func_pattern [OF m] obtain p1 p2 ws3 w ws4 where
    M: "M = p1 @ p2 @ ''function'' @ ws3 @ w @ ws4 @ ''(''"
    and p1: "p1 = [] \<or> (\<exists>ws. p1 = ''export'' @ ws \<and> list_all is_space ws)"
    and p2: "p2 = [] \<or> (\<exists>ws. p2 = ''async'' @ ws \<and> list_all is_space ws)"
    and ws3: "ws3 \<noteq> []" "list_all is_space ws3"
    and w: "w \<noteq> []" "list_all is_word w"
    and ws4: "list_all is_space ws4" and c': "c' = Some w"
    by blast
  define B where "B = p1 @ p2 @ ''function'' @ ws3 @ w @ ws4"
  define T where "T = D @ X @ ''function '' @ f"
  have MB: "M @ rest = B @ CHR ''('' # rest" using M by (simp add: B_def)
  have ST: "M @ rest = T @ CHR ''('' # post" using S by (simp add: T_def)
  have lM: "length M = Suc (length B)" using M by (simp add: B_def)
  have n1: "CHR ''('' \<notin> set p1" using p1 by (auto dest: spaces_no_paren)
  have n2: "CHR ''('' \<notin> set p2" using p2 by (auto dest: spaces_no_paren)
  have Bno: "CHR ''('' \<notin> set B"
    using n1 n2 spaces_no_paren [OF ws3(2)] words_no_paren [OF w(2)] spaces_no_paren [OF ws4]
    by (simp add: B_def)
  have tB: "takeWhile (\<lambda>ch. ch \<noteq> CHR ''('') (M @ rest) = B"
    unfolding MB using Bno by (rule takeWhile_to_char)
  have Dno: "CHR ''('' \<notin> set D"
  proof
    assume "CHR ''('' \<in> set D"
    then have "length (takeWhile (\<lambda>ch. ch \<noteq> CHR ''('') (D @ X @ ''function '' @ f @ ''('' @ post))
               < length D"
      by (rule takeWhile_has_char)
    then have "length B < length D" using tB S by simp
    with len lM show False by simp
  qed
  have Tno: "CHR ''('' \<notin> set T"
    using Dno X words_no_paren [OF f(2)] by (simp add: T_def)
  have "takeWhile (\<lambda>ch. ch \<noteq> CHR ''('') (M @ rest) = T"
    unfolding ST using Tno by (rule takeWhile_to_char)
  with tB have B: "B = T" by simp
  have e4: "ws4 = []"
  proof (rule ccontr)
    assume ne: "ws4 \<noteq> []"
    then have "last B = last ws4" by (simp add: B_def)
    moreover have "last T = last f" using f(1) by (simp add: T_def)
    moreover have "is_space (last ws4)" using ne ws4 by (simp add: list_all_iff)
    moreover have "is_word (last f)" using f by (simp add: list_all_iff)
    ultimately show False using space_not_word B by metis
  qed
  have eq: "(p1 @ p2 @ ''function'' @ ws3) @ w = (D @ X @ ''function '') @ f"
    using B e4 by (simp add: B_def T_def)
  have u: "\<not> is_word (last (p1 @ p2 @ ''function'' @ ws3))"
    using ws3 by (simp add: list_all_iff space_not_word)
  have v: "\<not> is_word (last (D @ X @ ''function ''))" by simp
  have "w = f"
    by (rule word_suffix_unique [OF eq w(2) f(2) _ u _ v]) simp_all
  with c' show ?thesis by simp
qed


lemma matches_Seq_GrpPlusI:
  assumes "m1 \<noteq> []" "list_all (in_cls k) m1" "matches b m2 (Some m1) c'"
  shows "matches (Seq (Grp (Plus k)) b) (m1 @ m2) c c'"
proof -
  have "matches (Grp (Plus k)) m1 c (Some m1)" using assms(1,2) by auto
  then show ?thesis using assms(3) by (rule matches_SeqI)
qed

lemma matches_func_patternI:
  assumes "matches (Opt (Seq (Lit ''export'') (Plus Space))) p1 None None"
    and "matches (Opt (Seq (Lit ''async'') (Plus Space))) p2 None None"
    and "ws3 \<noteq> []" "list_all is_space ws3" "w \<noteq> []" "list_all is_word w"
    and "list_all is_space ws4"
  shows "matches func_pattern (p1 @ p2 @ ''function'' @ ws3 @ w @ ws4 @ ''('') None (Some w)"
  unfolding func_pattern_def seqs.simps
  apply (rule matches_SeqI [OF assms(1)])
  apply (rule matches_SeqI [OF assms(2)])
  apply (rule matches_Seq_LitI)
  apply (rule matches_Seq_PlusI)
    apply (rule assms(3))
   apply (insert assms(4), simp add: list_all_iff) [1]
  apply (rule matches_Seq_GrpPlusI)
    apply (rule assms(5))
   apply (insert assms(6), simp add: list_all_iff) [1]
  apply (rule matches_Seq_StarI)
   apply (insert assms(7), simp add: list_all_iff) [1]
  apply simp
  done

lemma func_found:
  assumes f: "f \<noteq> []" "list_all is_word f"
    and X: "X = ''export '' \<or> X = ''export async ''"
  shows "f \<in> set (findall func_pattern (pre @ X @ ''function '' @ f @ ''('' @ post))"
proof -
  let ?tgt = "X @ ''function '' @ f @ ''('' @ post"
  let ?C = "pre @ ?tgt"
  have Xno: "CHR ''('' \<notin> set X" using X by auto
  have "matches func_pattern (X @ ''function '' @ f @ ''('') None (Some f)"
  proof -
    have e: "matches (Opt (Seq (Lit ''export'') (Plus Space))) (''export'' @ '' '') None None"
      by (simp add: is_space_blank)
    have a0: "matches (Opt (Seq (Lit ''async'') (Plus Space))) [] None None"
      by simp
    have a1: "matches (Opt (Seq (Lit ''async'') (Plus Space))) (''async'' @ '' '') None None"
      by (simp add: is_space_blank)
    have s1: "list_all is_space '' ''" by (simp add: is_space_blank)
    from X show ?thesis
    proof
      assume "X = ''export ''"
      with matches_func_patternI [OF e a0 _ s1 f, of "[]"] show ?thesis by simp
    next
      assume "X = ''export async ''"
      with matches_func_patternI [OF e a1 _ s1 f, of "[]"] show ?thesis by simp
    qed
  qed
  then have "(post, Some f) \<in> set (run func_pattern ((X @ ''function '' @ f @ ''('') @ post) None)"
    unfolding run_matches by blast
  then obtain q qs where run: "run func_pattern ?tgt None = q # qs"
    by (cases "run func_pattern ?tgt None") auto
  from run_hd_matches [OF run] obtain m where m: "?tgt = m @ fst q"
    "matches func_pattern m None (snd q)" by blast
  have mne: "m \<noteq> []" using matches_func_pattern [OF m(2)] by auto
  have "snd q = Some f"
    by (rule func_capture [OF m(2), where D = "[]" and X = X and rest = "fst q" and post = post])
       (use m(1) mne Xno f in simp_all)
  then have g: "group1 (snd q) = f" by simp
  have l: "length (fst q) < length ?tgt"
    using mne by (subst m(1)) simp
  have ov: "\<forall>(j, e, g') \<in> set (finditer func_pattern 0 ?C).
              j < 0 + length pre \<and> 0 + length pre < e \<longrightarrow> g' = f"
  proof (clarify)
    fix j e g'
    assume mem: "(j, e, g') \<in> set (finditer func_pattern 0 ?C)"
      and j: "j < 0 + length pre" and e: "0 + length pre < e"
    from finditer_sound [OF mem] obtain c' where
      b: "e \<le> length ?C" and mt: "matches func_pattern (take (e - j) (drop j ?C)) None c'"
      and g': "g' = group1 c'"
      by auto
    have "c' = Some f"
    proof (rule func_capture [OF mt, where D = "drop j pre" and X = X
          and rest = "drop (e - j) (drop j ?C)" and post = post])
      show "take (e - j) (drop j ?C) @ drop (e - j) (drop j ?C)
            = drop j pre @ X @ ''function '' @ f @ ''('' @ post"
        using j by (simp only: append_take_drop_id) simp
      show "length (drop j pre) < length (take (e - j) (drop j ?C))"
        using j e b by simp
    qed (use Xno f in simp_all)
    with g' show "g' = f" by simp
  qed
  from finditer_hits [OF ov run g l] obtain j e where
    "(j, e, f) \<in> set (finditer func_pattern 0 ?C)" by blast
  then show ?thesis
    by (force simp: findall_def)
qed


lemma matches_export_pattern:
  assumes "matches export_pattern M None c'"
  shows "\<exists>ws1 kw ws2 w.
           M = ''export'' @ ws1 @ kw @ ws2 @ w
           \<and> ws1 \<noteq> [] \<and> list_all is_space ws1
           \<and> kw \<in> {''const'', ''function'', ''class'', ''interface'', ''type''}
           \<and> ws2 \<noteq> [] \<and> list_all is_space ws2
           \<and> w \<noteq> [] \<and> list_all is_word w \<and> c' = Some w"
proof -
  let ?alt = "Alt (Lit ''const'') (Alt (Lit ''function'') (Alt (Lit ''class'')
                (Alt (Lit ''interface'') (Lit ''type''))))"
  let ?r5 = "Grp (Plus Word)"
  let ?r4 = "Seq (Plus Space) ?r5"
  let ?r3 = "Seq ?alt ?r4"
  let ?r2 = "Seq (Plus Space) ?r3"
  from assms have "matches (Seq (Lit ''export'') ?r2) M None c'"
    unfolding export_pattern_def seqs.simps .
  then obtain l1 m1 c1 where 1: "M = l1 @ m1"
    "matches (Lit ''export'') l1 None c1" "matches ?r2 m1 c1 c'"
    by (rule matches_SeqE)
  from 1(3) obtain ws1 m2 c2 where 2: "m1 = ws1 @ m2"
    "matches (Plus Space) ws1 c1 c2" "matches ?r3 m2 c2 c'"
    by (rule matches_SeqE)
  from 2(3) obtain kw m3 c3 where 3: "m2 = kw @ m3"
    "matches ?alt kw c2 c3" "matches ?r4 m3 c3 c'"
    by (rule matches_SeqE)
  from 3(3) obtain ws2 w c4 where 4: "m3 = ws2 @ w"
    "matches (Plus Space) ws2 c3 c4" "matches ?r5 w c4 c'"
    by (rule matches_SeqE)
  have a: "l1 = ''export''" using 1(2) by simp
  have b: "ws1 \<noteq> []" "list_all is_space ws1" using 2(2) by (simp_all add: list_all_iff)
  have c: "kw \<in> {''const'', ''function'', ''class'', ''interface'', ''type''}"
    using 3(2) by auto
  have d: "ws2 \<noteq> []" "list_all is_space ws2" using 4(2) by (simp_all add: list_all_iff)
  have e: "w \<noteq> []" "list_all is_word w" "c' = Some w" using 4(3) by (auto simp: list_all_iff)
  have "M = ''export'' @ ws1 @ kw @ ws2 @ w"
    using 1(1) 2(1) 3(1) 4(1) a by simp
  with b c d e show ?thesis by blast
qed

lemma takeWhile_words_paren:
  "list_all is_word w \<Longrightarrow> takeWhile is_word (w @ CHR ''('' # post) = w"
  by (induction w) auto

lemma run_GrpWord_head:
  assumes "w \<noteq> []" "list_all is_word w"
  shows "\<exists>qs. run (Grp (Plus Word)) (w @ CHR ''('' # post) c = (CHR ''('' # post, Some w) # qs"
proof -
  have tw: "takeWhile (in_cls Word) (w @ CHR ''('' # post) = w"
    using takeWhile_words_paren [OF assms(2)]
    by (simp add: takeWhile_cong [of _ _ "in_cls Word" is_word])
  have "rev [1 ..< Suc (length w)] = length w # rev [1 ..< length w]"
    using assms(1) by (cases w) simp_all
  then show ?thesis
    by (simp add: tw del: upt_Suc)
qed

lemma run_export_function_prefix:
  assumes "\<not> is_space x"
  shows "run export_pattern (''export function '' @ x # rest) c
         = run (Grp (Plus Word)) (x # rest) c"
  unfolding export_pattern_def seqs.simps
  using assms by (simp add: is_space_def)


lemma functions_from_findall:
  assumes "f \<in> set (findall func_pattern C)" "1 < length f" "f \<notin> set keywords_to_filter"
  shows "f \<in> set (functions' (extract_typescript_symbols C))"
  using assms by (simp add: extract_typescript_symbols_def Let_def set_dedup_filter)

lemma exports_from_findall:
  "f \<in> set (exports (extract_typescript_symbols C))
   \<longleftrightarrow> f \<in> set (findall export_pattern C) \<and> 1 < length f \<and> f \<notin> set keywords_to_filter"
  by (auto simp: extract_typescript_symbols_def Let_def set_dedup_filter)

lemma export_found:
  assumes bar: "bar \<noteq> []" "list_all is_word bar"
    and ov: "\<forall>(j, e, g) \<in> set (finditer export_pattern 0
                                   (pre @ ''export function '' @ bar @ ''('' @ post)).
               \<not> (j < length pre \<and> length pre < e)"
  shows "bar \<in> set (findall export_pattern (pre @ ''export function '' @ bar @ ''('' @ post))"
proof -
  let ?tgt = "''export function '' @ bar @ ''('' @ post"
  from bar obtain x bar' where x: "bar = x # bar'" "is_word x"
    by (cases bar) auto
  then have nx: "\<not> is_space x" using space_not_word by blast
  from run_GrpWord_head [OF bar, of post None] obtain qs where
    "run (Grp (Plus Word)) (bar @ CHR ''('' # post) None = (CHR ''('' # post, Some bar) # qs"
    by blast
  then have run: "run export_pattern ?tgt None = (CHR ''('' # post, Some bar) # qs"
    using run_export_function_prefix [OF nx, of "bar' @ ''('' @ post" None] x(1) by simp
  have ov': "\<forall>(j, e, g') \<in> set (finditer export_pattern 0 (pre @ ?tgt)).
               j < 0 + length pre \<and> 0 + length pre < e \<longrightarrow> g' = bar"
    using ov by auto
  from finditer_hits [OF ov' run] obtain j e where
    "(j, e, bar) \<in> set (finditer export_pattern 0 (pre @ ?tgt))" by auto
  then show ?thesis by (force simp: findall_def)
qed

text \<open>
  C5, as the code has it. For a name \<open>bar\<close> of word characters, longer than one
  character and not a reserved keyword, a content that contains
  \<^verbatim>\<open>export function bar(\<close> has \<open>bar\<close> among its functions. It has \<open>bar\<close> among its
  exports as well when no match that the export scan reports from further left runs
  into this text.
\<close>

theorem export_function_in_functions_and_exports:
  assumes "1 < length bar" "list_all is_word bar" "bar \<notin> set keywords_to_filter"
  shows "bar \<in> set (functions' (extract_typescript_symbols
                       (pre @ ''export function '' @ bar @ ''('' @ post)))
     \<and> ((\<forall>(j, e, g) \<in> set (finditer export_pattern 0
                                (pre @ ''export function '' @ bar @ ''('' @ post)).
            \<not> (j < length pre \<and> length pre < e))
        \<longrightarrow> bar \<in> set (exports (extract_typescript_symbols
                            (pre @ ''export function '' @ bar @ ''('' @ post))))"
proof (intro conjI impI)
  have ne: "bar \<noteq> []" using assms(1) by auto
  have "bar \<in> set (findall func_pattern (pre @ ''export '' @ ''function '' @ bar @ ''('' @ post))"
    by (rule func_found [OF ne assms(2)]) simp
  then have "bar \<in> set (findall func_pattern (pre @ ''export function '' @ bar @ ''('' @ post))"
    by simp
  then show "bar \<in> set (functions' (extract_typescript_symbols
                       (pre @ ''export function '' @ bar @ ''('' @ post)))"
    using assms(1,3) by (rule functions_from_findall)
  assume "\<forall>(j, e, g) \<in> set (finditer export_pattern 0
                                (pre @ ''export function '' @ bar @ ''('' @ post)).
            \<not> (j < length pre \<and> length pre < e)"
  with ne assms(2)
  have "bar \<in> set (findall export_pattern (pre @ ''export function '' @ bar @ ''('' @ post))"
    by (rule export_found)
  then show "bar \<in> set (exports (extract_typescript_symbols
                            (pre @ ''export function '' @ bar @ ''('' @ post)))"
    using assms(1,3) by (simp add: exports_from_findall)
qed

theorem export_function_in_functions_and_exports_witness:
  "''bar'' \<in> set (functions' (extract_typescript_symbols
       (''export const kk = 1; '' @ ''export function '' @ ''bar'' @ ''('' @ ''a) {}'')))
   \<and> ''bar'' \<in> set (exports (extract_typescript_symbols
       (''export const kk = 1; '' @ ''export function '' @ ''bar'' @ ''('' @ ''a) {}'')))"
proof -
  let ?pre = "''export const kk = 1; ''"
  have h: "1 < length ''bar''" "list_all is_word ''bar''" "''bar'' \<notin> set keywords_to_filter"
    by code_simp+
  have ov: "\<forall>(j, e, g) \<in> set (finditer export_pattern 0
                (?pre @ ''export function '' @ ''bar'' @ ''('' @ ''a) {}'')).
              \<not> (j < length ?pre \<and> length ?pre < e)"
    by code_simp
  from export_function_in_functions_and_exports [OF h, of ?pre "''a) {}''"] ov
  show ?thesis by blast
qed

text \<open>
  C5, as stated, fails for the exports: \<^verbatim>\<open>findall\<close> reports matches that do not overlap,
  and an earlier match of the export scan can take the word \<^verbatim>\<open>export\<close> of the
  declaration as its name. Here a comment line ends in \<^verbatim>\<open>export const\<close>.
\<close>

theorem export_function_swallowed_counterexample:
  "1 < length ''bar'' \<and> list_all is_word ''bar'' \<and> ''bar'' \<notin> set keywords_to_filter
   \<and> ''bar'' \<in> set (functions' (extract_typescript_symbols
        ((''// also export const'' @ [CHR 0x0A]) @ ''export function '' @ ''bar'' @ ''('' @ '') {}'')))
   \<and> ''bar'' \<notin> set (exports (extract_typescript_symbols
        ((''// also export const'' @ [CHR 0x0A]) @ ''export function '' @ ''bar'' @ ''('' @ '') {}'')))"
  unfolding extract_fields by code_simp

section \<open>Exported asynchronous functions\<close>

lemma finditer_first:
  "(j, e, g) \<in> set (finditer r i s) \<Longrightarrow>
   \<exists>k p ps. k \<le> length s \<and> j = i + k \<and> run r (drop k s) None = p # ps
      \<and> e = j + (length s - k - length (fst p)) \<and> g = group1 (snd p)"
proof (induction r i s rule: finditer.induct)
  case (1 r i s)
  note unf = finditer.simps [of r i s]
  have tail: ?case if s: "s = x # t" and mem: "(j, e, g) \<in> set (finditer r (Suc i) t)"
    and ih: "(j, e, g) \<in> set (finditer r (Suc i) t) \<Longrightarrow>
      \<exists>k p ps. k \<le> length t \<and> j = Suc i + k \<and> run r (drop k t) None = p # ps
        \<and> e = j + (length t - k - length (fst p)) \<and> g = group1 (snd p)"
    for x t
  proof -
    from ih [OF mem] obtain k p ps where k: "k \<le> length t" "j = Suc i + k"
      "run r (drop k t) None = p # ps" "e = j + (length t - k - length (fst p))"
      "g = group1 (snd p)" by blast
    have "Suc k \<le> length s \<and> j = i + Suc k \<and> run r (drop (Suc k) s) None = p # ps
      \<and> e = j + (length s - Suc k - length (fst p)) \<and> g = group1 (snd p)"
      using k s by simp
    then show ?thesis by blast
  qed
  show ?case
  proof (cases "run r s None")
    case Nil
    with "1.prems" unf obtain x t where s: "s = x # t"
      and mem: "(j, e, g) \<in> set (finditer r (Suc i) t)"
      by (cases s) auto
    show ?thesis by (rule tail [OF s mem "1.IH"(1) [OF Nil s]])
  next
    case (Cons p ps)
    have first: ?thesis if "(j, e, g) = (i, i + (length s - length (fst p)), group1 (snd p))"
    proof -
      have "0 \<le> length s \<and> j = i + 0 \<and> run r (drop 0 s) None = p # ps
        \<and> e = j + (length s - 0 - length (fst p)) \<and> g = group1 (snd p)"
        using that Cons by simp
      then show ?thesis by blast
    qed
    show ?thesis
    proof (cases "length (fst p) < length s")
      case True
      let ?n = "length s - length (fst p)"
      from "1.prems" unf Cons True
      consider "(j, e, g) = (i, i + ?n, group1 (snd p))"
        | "(j, e, g) \<in> set (finditer r (i + ?n) (fst p))"
        by auto
      then show ?thesis
      proof cases
        case 1
        then show ?thesis by (rule first)
      next
        case 2
        define n where "n = length s - length (fst p)"
        have ln: "n + length (fst p) = length s" using True by (simp add: n_def)
        from run_hd_matches [OF Cons] obtain m where m: "s = m @ fst p" by blast
        then have fp: "fst p = drop n s" by (simp add: n_def)
        from "1.IH"(2) [OF Cons True 2] obtain k q qs where k: "k \<le> length (fst p)"
          "j = i + n + k" "run r (drop k (fst p)) None = q # qs"
          "e = j + (length (fst p) - k - length (fst q))" "g = group1 (snd q)"
          unfolding n_def [symmetric] by blast
        have d: "drop k (fst p) = drop (n + k) s"
          by (subst fp) (simp add: add.commute)
        have a1: "n + k \<le> length s" using k(1) ln by linarith
        have a2: "j = i + (n + k)" using k(2) by simp
        have a3: "run r (drop (n + k) s) None = q # qs" using k(3) d by simp
        have "length (fst p) - k = length s - (n + k)" using ln by linarith
        then have a4: "e = j + (length s - (n + k) - length (fst q))" using k(4) by simp
        from a1 a2 a3 a4 k(5) show ?thesis by blast
      qed
    next
      case False
      with "1.prems" unf Cons
      consider "(j, e, g) = (i, i + (length s - length (fst p)), group1 (snd p))"
        | x t where "s = x # t" "(j, e, g) \<in> set (finditer r (Suc i) t)"
        by (cases s) auto
      then show ?thesis
      proof cases
        case 1
        then show ?thesis by (rule first)
      next
        case 2
        show ?thesis by (rule tail [OF 2(1) 2(2) "1.IH"(3) [OF Cons False 2(1)]])
      qed
    qed
  qed
qed

lemma hd_concat_map:
  "concat (map f xs) = p # ps \<Longrightarrow> \<exists>x ps'. x \<in> set xs \<and> f x = p # ps'"
proof (induction xs)
  case Nil
  then show ?case by simp
next
  case (Cons x xs)
  show ?case
  proof (cases "f x")
    case Nil
    with Cons show ?thesis by auto
  next
    case (Cons q qs)
    with Cons.prems have "f x = p # qs" by simp
    then show ?thesis by auto
  qed
qed

lemma run_Seq_hd:
  assumes "run (Seq a b) s c = p # ps"
  obtains s' c' ps' where "(s', c') \<in> set (run a s c)" "run b s' c' = p # ps'"
proof -
  from assms have "concat (map (\<lambda>x. run b (fst x) (snd x)) (run a s c)) = p # ps" by simp
  from hd_concat_map [OF this] obtain x ps' where "x \<in> set (run a s c)"
    "run b (fst x) (snd x) = p # ps'" by blast
  then have "(fst x, snd x) \<in> set (run a s c)" by simp
  then show ?thesis using \<open>run b (fst x) (snd x) = p # ps'\<close> by (rule that)
qed

lemma run_GrpWord_first:
  assumes "run (Grp (Plus Word)) s c = p # ps"
  shows "\<exists>w. s = w @ fst p \<and> w \<noteq> [] \<and> list_all is_word w \<and> snd p = Some w
             \<and> (fst p = [] \<or> \<not> is_word (hd (fst p)))"
proof -
  let ?L = "length (takeWhile (in_cls Word) s)"
  have iw: "in_cls Word = is_word" by (rule ext) simp
  have L: "0 < ?L"
  proof (rule ccontr)
    assume "\<not> 0 < ?L"
    then have "run (Grp (Plus Word)) s c = []" by simp
    with assms show False by simp
  qed
  then have "rev [1 ..< Suc ?L] = ?L # rev [1 ..< ?L]" by (simp add: Suc_le_eq)
  then have "run (Grp (Plus Word)) s c
     = (drop ?L s, Some (take (length s - length (drop ?L s)) s))
       # map (\<lambda>p. (fst p, Some (take (length s - length (fst p)) s)))
           (map (\<lambda>n. (drop n s, c)) (rev [1 ..< ?L]))"
    by (simp del: upt_Suc)
  with assms have p: "p = (drop ?L s, Some (take (length s - length (drop ?L s)) s))" by simp
  have le: "?L \<le> length s" by (rule length_takeWhile_le)
  then have "length s - length (drop ?L s) = ?L" by simp
  with p have p': "fst p = drop ?L s" "snd p = Some (take ?L s)" by simp_all
  have tw: "take ?L s = takeWhile is_word s" "drop ?L s = dropWhile is_word s"
    unfolding iw by (simp_all add: takeWhile_eq_take [symmetric] dropWhile_eq_drop [symmetric])
  have "s = takeWhile is_word s @ dropWhile is_word s" by simp
  moreover have "takeWhile is_word s \<noteq> []" using L unfolding iw by auto
  moreover have "list_all is_word (takeWhile is_word s)"
    by (simp add: list_all_iff) (meson set_takeWhileD)
  moreover have "dropWhile is_word s = [] \<or> \<not> is_word (hd (dropWhile is_word s))"
    using hd_dropWhile [of is_word s] by blast
  ultimately show ?thesis
    unfolding p' tw by blast
qed



lemma export_first:
  assumes "run export_pattern s None = p # ps"
  shows "\<exists>ws1 kw ws2 w.
           s = ''export'' @ ws1 @ kw @ ws2 @ w @ fst p
           \<and> ws1 \<noteq> [] \<and> list_all is_space ws1
           \<and> kw \<in> {''const'', ''function'', ''class'', ''interface'', ''type''}
           \<and> ws2 \<noteq> [] \<and> list_all is_space ws2
           \<and> w \<noteq> [] \<and> list_all is_word w \<and> snd p = Some w
           \<and> (fst p = [] \<or> \<not> is_word (hd (fst p)))"
proof -
  let ?alt = "Alt (Lit ''const'') (Alt (Lit ''function'') (Alt (Lit ''class'')
                (Alt (Lit ''interface'') (Lit ''type''))))"
  let ?r5 = "Grp (Plus Word)"
  let ?r4 = "Seq (Plus Space) ?r5"
  let ?r3 = "Seq ?alt ?r4"
  let ?r2 = "Seq (Plus Space) ?r3"
  from assms have "run (Seq (Lit ''export'') ?r2) s None = p # ps"
    unfolding export_pattern_def seqs.simps .
  then obtain s1 c1 ps1 where 1: "(s1, c1) \<in> set (run (Lit ''export'') s None)"
    "run ?r2 s1 c1 = p # ps1"
    by (rule run_Seq_hd)
  from 1(2) obtain s2 c2 ps2 where 2: "(s2, c2) \<in> set (run (Plus Space) s1 c1)"
    "run ?r3 s2 c2 = p # ps2"
    by (rule run_Seq_hd)
  from 2(2) obtain s3 c3 ps3 where 3: "(s3, c3) \<in> set (run ?alt s2 c2)"
    "run ?r4 s3 c3 = p # ps3"
    by (rule run_Seq_hd)
  from 3(2) obtain s4 c4 ps4 where 4: "(s4, c4) \<in> set (run (Plus Space) s3 c3)"
    "run ?r5 s4 c4 = p # ps4"
    by (rule run_Seq_hd)
  from 1(1) have a: "s = ''export'' @ s1"
    unfolding run_matches by simp
  from 2(1) obtain ws1 where b: "s1 = ws1 @ s2" "ws1 \<noteq> []" "list_all is_space ws1"
    unfolding run_matches by (auto simp: list_all_iff)
  from 3(1) obtain kw where c: "s2 = kw @ s3"
    "kw \<in> {''const'', ''function'', ''class'', ''interface'', ''type''}"
    unfolding run_matches by auto
  from 4(1) obtain ws2 where d: "s3 = ws2 @ s4" "ws2 \<noteq> []" "list_all is_space ws2"
    unfolding run_matches by (auto simp: list_all_iff)
  from run_GrpWord_first [OF 4(2)] obtain w where e: "s4 = w @ fst p" "w \<noteq> []"
    "list_all is_word w" "snd p = Some w" "fst p = [] \<or> \<not> is_word (hd (fst p))"
    by blast
  have eq: "s = ''export'' @ ws1 @ kw @ ws2 @ w @ fst p"
    using a b(1) c(1) d(1) e(1) by simp
  show ?thesis
    by (intro exI conjI, rule eq, rule b(2), rule b(3), rule c(2), rule d(2), rule d(3),
        rule e(2), rule e(3), rule e(4), rule e(5))
qed

lemma exports_sound:
  assumes "g \<in> set (findall export_pattern C)"
  shows "\<exists>a ws1 kw ws2 z.
           C = a @ ''export'' @ ws1 @ kw @ ws2 @ g @ z
           \<and> ws1 \<noteq> [] \<and> list_all is_space ws1
           \<and> kw \<in> {''const'', ''function'', ''class'', ''interface'', ''type''}
           \<and> ws2 \<noteq> [] \<and> list_all is_space ws2
           \<and> (z = [] \<or> \<not> is_word (hd z))"
proof -
  from assms obtain j e where mem: "(j, e, g) \<in> set (finditer export_pattern 0 C)"
    by (force simp: findall_def)
  from finditer_first [OF mem] obtain k p ps where
    run: "run export_pattern (drop k C) None = p # ps" and g: "g = group1 (snd p)"
    by blast
  define K where "K = {''const'', ''function'', ''class'', ''interface'', ''type''}"
  from export_first [OF run, folded K_def] obtain ws1 kw ws2 w where
    s: "drop k C = ''export'' @ ws1 @ kw @ ws2 @ w @ fst p"
    and r: "ws1 \<noteq> []" "list_all is_space ws1" "kw \<in> K"
      "ws2 \<noteq> []" "list_all is_space ws2" "snd p = Some w"
      "fst p = [] \<or> \<not> is_word (hd (fst p))"
    by blast
  have "C = take k C @ drop k C" by simp
  then have "C = take k C @ (''export'' @ ws1 @ kw @ ws2 @ w @ fst p)"
    by (simp only: s)
  moreover have "g = w" using g r(6) by simp
  ultimately have eq: "C = take k C @ ''export'' @ ws1 @ kw @ ws2 @ g @ fst p"
    by simp
  show ?thesis
    unfolding K_def [symmetric]
    by (intro exI conjI, rule eq, rule r(1), rule r(2), rule r(3), rule r(4), rule r(5),
        rule r(7))
qed

lemma async_not_direct_export:
  assumes eq: "''export'' @ ws1 @ kw @ ws2 @ y = ''export async function '' @ z"
    and ws1: "ws1 \<noteq> []" "list_all is_space ws1"
    and kw: "kw \<in> {''const'', ''function'', ''class'', ''interface'', ''type''}"
  shows False
proof -
  from ws1 obtain s ws where s: "ws1 = s # ws" by (cases ws1) auto
  with eq have 1: "s = CHR '' ''" "ws @ kw @ ws2 @ y = ''async function '' @ z" by simp_all
  have "ws = []"
  proof (cases ws)
    case (Cons t ws')
    with 1(2) have "t = CHR ''a''" by simp
    moreover have "is_space t" using ws1(2) s Cons by simp
    ultimately show ?thesis by (simp add: is_space_def)
  qed simp
  with 1(2) have "kw @ ws2 @ y = ''async function '' @ z" by simp
  with kw show False by auto
qed


text \<open>
  C10, as the code has it. For a name \<open>f\<close> of word characters, longer than one
  character and not a reserved keyword, a content that contains
  \<^verbatim>\<open>export async function f(\<close> has \<open>f\<close> among its functions. This text gives no
  export: \<open>f\<close> is among the exports only if the content has, somewhere, \<^verbatim>\<open>export\<close>,
  whitespace, one of the five declaration keywords, whitespace and the name \<open>f\<close>,
  that is \<open>f\<close> followed by the end of the content or by a character that is no word
  character; it is not, when \<^verbatim>\<open>export\<close> occurs in the content at this one place only.
\<close>

theorem export_async_function_not_exported:
  assumes "1 < length f" "list_all is_word f" "f \<notin> set keywords_to_filter"
  shows "f \<in> set (functions' (extract_typescript_symbols
                     (pre @ ''export async function '' @ f @ ''('' @ post)))
     \<and> (f \<in> set (exports (extract_typescript_symbols
                      (pre @ ''export async function '' @ f @ ''('' @ post)))
        \<longrightarrow> (\<exists>a ws1 kw ws2 z.
               pre @ ''export async function '' @ f @ ''('' @ post
                 = a @ ''export'' @ ws1 @ kw @ ws2 @ f @ z
               \<and> ws1 \<noteq> [] \<and> list_all is_space ws1
               \<and> kw \<in> {''const'', ''function'', ''class'', ''interface'', ''type''}
               \<and> ws2 \<noteq> [] \<and> list_all is_space ws2
               \<and> (z = [] \<or> \<not> is_word (hd z))))
     \<and> ((\<forall>k \<in> set [0 ..< length (pre @ ''export async function '' @ f @ ''('' @ post)].
            take 6 (drop k (pre @ ''export async function '' @ f @ ''('' @ post)) = ''export''
            \<longrightarrow> k = length pre)
        \<longrightarrow> f \<notin> set (exports (extract_typescript_symbols
                         (pre @ ''export async function '' @ f @ ''('' @ post))))"
proof -
  let ?C = "pre @ ''export async function '' @ f @ ''('' @ post"
  define K where "K = {''const'', ''function'', ''class'', ''interface'', ''type''}"
  have ne: "f \<noteq> []" using assms(1) by auto
  have "f \<in> set (findall func_pattern (pre @ ''export async '' @ ''function '' @ f @ ''('' @ post))"
    by (rule func_found [OF ne assms(2)]) simp
  then have "f \<in> set (findall func_pattern ?C)" by simp
  then have 1: "f \<in> set (functions' (extract_typescript_symbols ?C))"
    using assms(1,3) by (rule functions_from_findall)
  have 2: "\<exists>a ws1 kw ws2 z. ?C = a @ ''export'' @ ws1 @ kw @ ws2 @ f @ z
               \<and> ws1 \<noteq> [] \<and> list_all is_space ws1
               \<and> kw \<in> K
               \<and> ws2 \<noteq> [] \<and> list_all is_space ws2
               \<and> (z = [] \<or> \<not> is_word (hd z))"
    if "f \<in> set (exports (extract_typescript_symbols ?C))"
  proof -
    from that have "f \<in> set (findall export_pattern ?C)"
      by (simp only: exports_from_findall)
    then show ?thesis unfolding K_def by (rule exports_sound)
  qed
  have 3: "f \<notin> set (exports (extract_typescript_symbols ?C))"
    if only: "\<forall>k \<in> set [0 ..< length ?C]. take 6 (drop k ?C) = ''export'' \<longrightarrow> k = length pre"
  proof
    assume "f \<in> set (exports (extract_typescript_symbols ?C))"
    from 2 [OF this] obtain a ws1 kw ws2 z where
      C: "?C = a @ ''export'' @ ws1 @ kw @ ws2 @ f @ z"
      and r: "ws1 \<noteq> []" "list_all is_space ws1" "kw \<in> K"
      by blast
    have tk: "take 6 (drop (length a) ?C) = ''export''"
      by (subst C) simp
    have "length a < length ?C"
      by (subst C) simp
    then have "length a \<in> set [0 ..< length ?C]"
      unfolding set_upt atLeastLessThan_iff by blast
    with only have "take 6 (drop (length a) ?C) = ''export'' \<longrightarrow> length a = length pre"
      by (rule bspec)
    from this tk have "length a = length pre" by (rule mp)
    then have la: "length pre = length a" by (rule sym)
    have "pre = a \<and> ''export async function '' @ f @ ''('' @ post
                     = ''export'' @ ws1 @ kw @ ws2 @ f @ z"
      using C append_eq_append_conv [of pre a] la by blast
    then have "''export'' @ ws1 @ kw @ ws2 @ (f @ z) = ''export async function '' @ (f @ ''('' @ post)"
      by simp
    then show False using r unfolding K_def by (rule async_not_direct_export)
  qed
  show ?thesis
    unfolding K_def [symmetric]
    by (intro conjI impI) (rule 1, erule 2, erule 3)
qed

theorem export_async_function_not_exported_witness:
  "''ff'' \<in> set (functions' (extract_typescript_symbols
       (''let x = 1; '' @ ''export async function '' @ ''ff'' @ ''('' @ ''a) {}'')))
   \<and> ''ff'' \<notin> set (exports (extract_typescript_symbols
       (''let x = 1; '' @ ''export async function '' @ ''ff'' @ ''('' @ ''a) {}'')))
   \<and> ''ff'' \<in> set (exports (extract_typescript_symbols
       (''export function ff(a); '' @ ''export async function '' @ ''ff'' @ ''('' @ ''a) {}'')))
   \<and> (\<exists>a ws1 kw ws2 z.
         ''export function ff(a); '' @ ''export async function '' @ ''ff'' @ ''('' @ ''a) {}''
           = a @ ''export'' @ ws1 @ kw @ ws2 @ ''ff'' @ z
         \<and> ws1 \<noteq> [] \<and> list_all is_space ws1
         \<and> kw \<in> {''const'', ''function'', ''class'', ''interface'', ''type''}
         \<and> ws2 \<noteq> [] \<and> list_all is_space ws2
         \<and> (z = [] \<or> \<not> is_word (hd z)))"
proof -
  let ?p1 = "''let x = 1; ''" and ?p2 = "''export function ff(a); ''" and ?post = "''a) {}''"
  have h: "1 < length ''ff''" "list_all is_word ''ff''" "''ff'' \<notin> set keywords_to_filter"
    by code_simp+
  have only: "\<forall>k \<in> set [0 ..< length (?p1 @ ''export async function '' @ ''ff'' @ ''('' @ ?post)].
            take 6 (drop k (?p1 @ ''export async function '' @ ''ff'' @ ''('' @ ?post)) = ''export''
            \<longrightarrow> k = length ?p1"
    by code_simp
  have ex: "''ff'' \<in> set (exports (extract_typescript_symbols
       (?p2 @ ''export async function '' @ ''ff'' @ ''('' @ ?post)))"
    unfolding extract_fields by code_simp
  from export_async_function_not_exported [OF h, of ?p1 ?post]
    export_async_function_not_exported [OF h, of ?p2 ?post] only ex
  show ?thesis by blast
qed

text \<open>
  C10, as stated, fails: the content may export the same name in another declaration,
  here the overload signature of the asynchronous function.
\<close>

theorem export_async_function_exported_counterexample:
  "1 < length ''ff'' \<and> list_all is_word ''ff'' \<and> ''ff'' \<notin> set keywords_to_filter
   \<and> ''ff'' \<in> set (functions' (extract_typescript_symbols
        ((''export function ff(a: string): void;'' @ [CHR 0x0A])
         @ ''export async function '' @ ''ff'' @ ''('' @ ''a: any) {}'')))
   \<and> ''ff'' \<in> set (exports (extract_typescript_symbols
        ((''export function ff(a: string): void;'' @ [CHR 0x0A])
         @ ''export async function '' @ ''ff'' @ ''('' @ ''a: any) {}'')))"
  unfolding extract_fields by code_simp

end
